theory Spec2Isabelle
  imports Complex_Main "HOL-Library.Multiset" "HOL-Library.Log_Nat"
begin

section \<open>The three scripts\<close>

text \<open>
  The repository holds three variants of one post-commit script:
  \<^item> \<open>src/script/commit-tracker.js\<close>, which keeps the single history file
    \<open>script/commit-history.json\<close> (called \<open>SingleFile\<close> below);
  \<^item> \<open>src/unnamed/part_000\<close>, lines 1-239, which keeps one file per branch and one for
    \<open>main\<close> (\<open>BranchMain\<close>);
  \<^item> \<open>src/unnamed/part_000\<close>, lines 240-430, which keeps the global file and one file per
    branch (\<open>GlobalBranch\<close>).
\<close>

datatype variant = SingleFile | BranchMain | GlobalBranch

section \<open>Numbers\<close>

text \<open>
  A JavaScript number is an IEEE 754 double. A finite double is modelled as the
  rational it denotes, and \<open>double_of x\<close> is the double nearest to \<open>x\<close>, a tie going to
  the even mantissa: the result of every arithmetic operation of the scripts is
  \<open>double_of\<close> of the exact result. With \<open>d\<close> computed from the bit lengths of
  numerator and denominator, \<open>\<bar>x\<bar>\<close> lies between \<open>2^(d-1)\<close> and \<open>2^(d+1)\<close>; \<open>e\<close> is then the
  exponent of the last mantissa bit, so that \<open>\<bar>x\<bar> / 2^e\<close> lies between \<open>2^52\<close> and
  \<open>2^53\<close>. Overflow to Infinity (from \<open>2^1024\<close>) and the subnormal range (below
  \<open>2^-1022\<close>) are left out: no infinity and no NaN is a value here, and the counts of
  the scripts stay far from both ranges.
\<close>

definition round_half_even :: "rat \<Rightarrow> int" where
  "round_half_even y =
     (let f = \<lfloor>y\<rfloor>; r = y - of_int f
      in if r < 1 / 2 then f else if 1 / 2 < r then f + 1 else if even f then f else f + 1)"

definition double_of :: "rat \<Rightarrow> rat" where
  "double_of x =
     (if x = 0 then 0
      else
        let a = \<bar>x\<bar>;
            d = bitlen (fst (quotient_of a)) - bitlen (snd (quotient_of a));
            e = (if a < 2 powi d then d - 53 else d - 52)
        in sgn x * (of_int (round_half_even (a / 2 powi e)) * 2 powi e))"

text \<open>
  \<open>Math.round(x)\<close> is the integer nearest to the double \<open>x\<close>, a tie going up; it is
  exact.
\<close>

definition math_round :: "rat \<Rightarrow> int" where
  "math_round x = \<lfloor>x + 1 / 2\<rfloor>"

section \<open>Strings and the regular expressions of the scripts\<close>

text \<open>
  A JavaScript string is modelled as a \<open>string\<close>, one \<open>char\<close> per code unit (code
  units above 255 have no counterpart here).
\<close>

definition startsWith :: "string \<Rightarrow> string \<Rightarrow> bool" where
  "startsWith s p = (take (length p) s = p)"

definition endsWith :: "string \<Rightarrow> string \<Rightarrow> bool" where
  "endsWith s t = (length t \<le> length s \<and> drop (length s - length t) s = t)"

text \<open>The character classes \<open>\d\<close>, \<open>\s\<close> and, under the flag \<open>i\<close>, \<open>[0-9a-f]\<close>.\<close>

definition is_digit :: "char \<Rightarrow> bool" where
  "is_digit c = (c \<in> set ''0123456789'')"

definition is_space :: "char \<Rightarrow> bool" where
  "is_space c = (c \<in> {CHR 0x09, CHR 0x0A, CHR 0x0B, CHR 0x0C, CHR 0x0D, CHR 0x20, CHR 0xA0})"

definition is_hex_ci :: "char \<Rightarrow> bool" where
  "is_hex_ci c = (c \<in> set ''0123456789abcdefABCDEF'')"

text \<open>\<open>/^[0-9a-f]{7,40}$/i.test(sha)\<close>, the check that all three scripts make on the hash.\<close>

definition valid_sha :: "string \<Rightarrow> bool" where
  "valid_sha s = (7 \<le> length s \<and> length s \<le> 40 \<and> list_all is_hex_ci s)"

text \<open>The same expression without the flag \<open>i\<close>, as the specification writes it.\<close>

definition is_hex_lower :: "char \<Rightarrow> bool" where
  "is_hex_lower c = (c \<in> set ''0123456789abcdef'')"

definition lower_hex_sha :: "string \<Rightarrow> bool" where
  "lower_hex_sha s = (7 \<le> length s \<and> length s \<le> 40 \<and> list_all is_hex_lower s)"

text \<open>\<open>(name || "unknown").replace(/[^a-zA-Z0-9._-]/g, "_")\<close>\<close>

definition branch_char :: "char \<Rightarrow> bool" where
  "branch_char c =
     (c \<in> set ''abcdefghijklmnopqrstuvwxyzABCDEFGHIJKLMNOPQRSTUVWXYZ0123456789._-'')"

definition sanitizeBranchName :: "string \<Rightarrow> string" where
  "sanitizeBranchName name =
     map (\<lambda>c. if branch_char c then c else CHR ''_'')
       (if name = [] then ''unknown'' else name)"

text \<open>
  \<open>parseInt(digits, 10)\<close> on a run of decimal digits: the double nearest to the number
  that the digits denote, which is that number itself below \<open>2^53\<close> (a run that denotes
  \<open>2^1024\<close> or more gives Infinity in JavaScript and has no counterpart here).
\<close>

definition digit_val :: "char \<Rightarrow> nat" where
  "digit_val c = length (takeWhile (\<lambda>d. d \<noteq> c) ''0123456789'')"

definition decimal :: "string \<Rightarrow> nat" where
  "decimal ds = foldl (\<lambda>n c. 10 * n + digit_val c) 0 ds"

definition parseInt10 :: "string \<Rightarrow> rat" where
  "parseInt10 ds = double_of (of_nat (decimal ds))"

text \<open>
  \<open>s.match(/(\d+)\s+word/)\<close>: the first group of the leftmost match. At one start
  position the match is unique: \<open>\d+\<close> must take the whole run of digits and \<open>\s+\<close>
  the whole run of white space, because the character after each is of another class.
\<close>

definition match_here :: "string \<Rightarrow> string \<Rightarrow> string option" where
  "match_here word s =
     (let ds = takeWhile is_digit s; r1 = dropWhile is_digit s;
          sp = takeWhile is_space r1; r2 = dropWhile is_space r1
      in if ds \<noteq> [] \<and> sp \<noteq> [] \<and> startsWith r2 word then Some ds else None)"

fun match_count :: "string \<Rightarrow> string \<Rightarrow> string option" where
  "match_count word [] = None"
| "match_count word (c # cs) =
     (case match_here word (c # cs) of
        Some ds \<Rightarrow> Some ds
      | None \<Rightarrow> match_count word cs)"

text \<open>\<open>m ? parseInt(m[1], 10) : 0\<close>\<close>

definition count_or_zero :: "string option \<Rightarrow> rat" where
  "count_or_zero m = (case m of Some ds \<Rightarrow> parseInt10 ds | None \<Rightarrow> 0)"

section \<open>Values read by \<open>JSON.parse\<close>\<close>

text \<open>
  An object is the list of its properties in enumeration order (\<open>JSON.parse\<close> keeps one
  value per key). A number is the rational that the double denotes; \<open>undefined\<close> is
  \<open>None\<close> of \<open>json option\<close>.
\<close>

datatype json =
    JNull
  | JBool bool
  | JNum rat
  | JStr string
  | JArr "json list"
  | JObj "(string \<times> json) list"

datatype error =
    TypeError
  | CommandFailed
  | WriteFailed
  | InvalidSha
  | NoEntry
  | ShaIsHead
  | UrlEndsInHead
  | UrlNotSha
  | MissingBranch

text \<open>
  \<open>x.k\<close> for a value \<open>x\<close> that is not \<open>null\<close>, where \<open>k\<close> is one of the names the scripts
  read (none of them is a built-in property of a string, an array or a number).
\<close>

definition get_prop :: "json \<Rightarrow> string \<Rightarrow> json option" where
  "get_prop x k = (case x of JObj kvs \<Rightarrow> map_of kvs k | _ \<Rightarrow> None)"

definition truthy :: "json option \<Rightarrow> bool" where
  "truthy v =
     (case v of
        None \<Rightarrow> False
      | Some JNull \<Rightarrow> False
      | Some (JBool b) \<Rightarrow> b
      | Some (JNum n) \<Rightarrow> n \<noteq> 0
      | Some (JStr s) \<Rightarrow> s \<noteq> []
      | Some _ \<Rightarrow> True)"

text \<open>\<open>x || 0\<close>\<close>

definition or_zero :: "json option \<Rightarrow> json" where
  "or_zero v = (case v of Some x \<Rightarrow> (if truthy v then x else JNum 0) | None \<Rightarrow> JNum 0)"

text \<open>\<open>Object.values(x)\<close> and \<open>Object.keys(x).length\<close>; both throw on \<open>undefined\<close> and \<open>null\<close>.\<close>

definition object_values :: "json option \<Rightarrow> error + json list" where
  "object_values v =
     (case v of
        None \<Rightarrow> Inl TypeError
      | Some JNull \<Rightarrow> Inl TypeError
      | Some (JObj kvs) \<Rightarrow> Inr (map snd kvs)
      | Some (JArr xs) \<Rightarrow> Inr xs
      | Some (JStr s) \<Rightarrow> Inr (map (\<lambda>c. JStr [c]) s)
      | Some _ \<Rightarrow> Inr [])"

definition keys_length :: "json option \<Rightarrow> error + nat" where
  "keys_length v =
     (case v of
        None \<Rightarrow> Inl TypeError
      | Some JNull \<Rightarrow> Inl TypeError
      | Some (JObj kvs) \<Rightarrow> Inr (length kvs)
      | Some (JArr xs) \<Rightarrow> Inr (length xs)
      | Some (JStr s) \<Rightarrow> Inr (length s)
      | Some _ \<Rightarrow> Inr 0)"

section \<open>The world outside the script\<close>

text \<open>
  \<open>sh cmd\<close> is the trimmed output of \<open>execSync(cmd)\<close>, or \<open>None\<close> when the command
  exits with an error and \<open>execSync\<close> throws. \<open>jest_report\<close> is what stands at the
  report's path after the test run. \<open>to_number\<close> is the runtime's conversion of a
  string, an array or an object to a number (\<open>None\<close> for NaN, \<open>Inl\<close> when the conversion
  throws) and \<open>date_value\<close> the time value of \<open>new Date(x)\<close> (\<open>None\<close> for an invalid
  date). \<open>writable p\<close> says that \<open>fs.writeFileSync(p, ...)\<close> succeeds. \<open>long_order\<close> is
  the order in which the runtime's \<open>sort\<close> leaves an array of 64 or more records of which
  some have an invalid date, a case that ECMAScript leaves to the implementation.
\<close>

datatype report_file = NoReport | Unreadable | Report json

record world =
  sh :: "string \<Rightarrow> string option"
  package_json :: bool
  jest_report :: report_file
  to_number :: "json \<Rightarrow> error + rat option"
  date_value :: "json option \<Rightarrow> error + int option"
  writable :: "string \<Rightarrow> bool"
  long_order :: "json list \<Rightarrow> json list"

text \<open>\<open>v > 0\<close>\<close>

definition gt_zero :: "world \<Rightarrow> json \<Rightarrow> error + bool" where
  "gt_zero w v =
     (case v of
        JNum n \<Rightarrow> Inr (0 < n)
      | JBool b \<Rightarrow> Inr b
      | JNull \<Rightarrow> Inr False
      | _ \<Rightarrow>
        (case to_number w v of
           Inl e \<Rightarrow> Inl e
         | Inr None \<Rightarrow> Inr False
         | Inr (Some n) \<Rightarrow> Inr (0 < n)))"

section \<open>The test report\<close>

text \<open>
  The loop over \<open>Object.values(coverageMap)\<close>, with the accumulators \<open>covered\<close> and
  \<open>total\<close>. \<open>count_hits\<close> is \<open>Object.values(s).filter((v) => v > 0).length\<close>; an
  exception thrown by a comparison leaves the filter.
\<close>

fun count_hits :: "world \<Rightarrow> json list \<Rightarrow> error + nat" where
  "count_hits w [] = Inr 0"
| "count_hits w (v # vs) =
     (case gt_zero w v of
        Inl e \<Rightarrow> Inl e
      | Inr b \<Rightarrow>
        (case count_hits w vs of
           Inl e \<Rightarrow> Inl e
         | Inr n \<Rightarrow> Inr (if b then Suc n else n)))"

fun coverage_loop :: "world \<Rightarrow> json list \<Rightarrow> nat \<Rightarrow> nat \<Rightarrow> error + nat \<times> nat" where
  "coverage_loop w [] covered total' = Inr (covered, total')"
| "coverage_loop w (file # files) covered total' =
     (if file = JNull then Inl TypeError
      else
        let s = get_prop file ''s'' in
        (case keys_length s of
           Inl e \<Rightarrow> Inl e
         | Inr fileTotal \<Rightarrow>
           (case object_values s of
              Inl e \<Rightarrow> Inl e
            | Inr vs \<Rightarrow>
              (case count_hits w vs of
                 Inl e \<Rightarrow> Inl e
               | Inr fileCovered \<Rightarrow>
                 coverage_loop w files (covered + fileCovered) (total' + fileTotal)))))"

text \<open>
  The argument of \<open>Math.round\<close>: \<open>((covered / total) * 100) * 100\<close> in the first and the
  third script, \<open>(covered / total) * 10000\<close> in the second, each operation rounded to a
  double. The two counts are integers below \<open>2^53\<close> and so doubles themselves.
\<close>

definition scaled_ratio :: "variant \<Rightarrow> nat \<Rightarrow> nat \<Rightarrow> rat" where
  "scaled_ratio v covered total' =
     (let ratio = double_of (of_nat covered / of_nat total')
      in if v = BranchMain then double_of (ratio * 10000)
         else double_of (double_of (ratio * 100) * 100))"

text \<open>
  \<open>Math.round(((covered / total) * 100) * 100) / 100\<close> and
  \<open>Math.round((covered / total) * 10000) / 100\<close>
\<close>

definition coverage_pct :: "variant \<Rightarrow> nat \<Rightarrow> nat \<Rightarrow> rat" where
  "coverage_pct v covered total' =
     double_of (of_int (math_round (scaled_ratio v covered total')) / 100)"

text \<open>The block \<open>if (jestResults.coverageMap) { ... }\<close>, giving the new \<open>coverage\<close>.\<close>

definition coverage_of :: "variant \<Rightarrow> world \<Rightarrow> json \<Rightarrow> error + rat" where
  "coverage_of v w jestResults =
     (let coverageMap = get_prop jestResults ''coverageMap'' in
      if truthy coverageMap then
        (case object_values coverageMap of
           Inl e \<Rightarrow> Inl e
         | Inr files \<Rightarrow>
           (case coverage_loop w files 0 0 of
              Inl e \<Rightarrow> Inl e
            | Inr (covered, total') \<Rightarrow>
              Inr (if 0 < total' then coverage_pct v covered total' else 0)))
      else Inr 0)"

text \<open>\<open>testCount > 0 ? (failedTests > 0 ? "failure" : "success") : "neutral"\<close>\<close>

definition conclusion_of :: "world \<Rightarrow> json \<Rightarrow> json \<Rightarrow> error + string" where
  "conclusion_of w testCount failedTests =
     (case gt_zero w testCount of
        Inl e \<Rightarrow> Inl e
      | Inr False \<Rightarrow> Inr ''neutral''
      | Inr True \<Rightarrow>
        (case gt_zero w failedTests of
           Inl e \<Rightarrow> Inl e
         | Inr b \<Rightarrow> Inr (if b then ''failure'' else ''success'')))"

text \<open>
  The variables \<open>(testCount, coverage, failedTests, conclusion)\<close> after the block
  \<open>if (fs.existsSync(outputPath)) { ... }\<close> run on the parsed report. Each assignment
  made before an exception stays: the \<open>catch\<close> only logs.
\<close>

definition process_report ::
  "variant \<Rightarrow> world \<Rightarrow> json \<Rightarrow> json \<times> rat \<times> json \<times> string" where
  "process_report v w jestResults =
     (if jestResults = JNull then (JNum 0, 0, JNum 0, ''neutral'')
      else
        let testCount = or_zero (get_prop jestResults ''numTotalTests'');
            failedTests = or_zero (get_prop jestResults ''numFailedTests'')
        in
        (case coverage_of v w jestResults of
           Inl e \<Rightarrow> (testCount, 0, failedTests, ''neutral'')
         | Inr coverage \<Rightarrow>
           (case conclusion_of w testCount failedTests of
              Inl e \<Rightarrow> (testCount, coverage, failedTests, ''neutral'')
            | Inr conclusion \<Rightarrow> (testCount, coverage, failedTests, conclusion))))"

text \<open>
  The section \<open>Pruebas (Jest)\<close> of \<open>getCommitInfo\<close>, the same in the three scripts but
  for a warning and the expression of the coverage. The exit status of the test run is
  ignored by its own \<open>try\<close>.
\<close>

definition run_tests :: "variant \<Rightarrow> world \<Rightarrow> json \<times> rat \<times> json \<times> string" where
  "run_tests v w =
     (if package_json w then
        (case jest_report w of
           NoReport \<Rightarrow> (JNum 0, 0, JNum 0, ''neutral'')
         | Unreadable \<Rightarrow> (JNum 0, 0, JNum 0, ''neutral'')
         | Report jestResults \<Rightarrow> process_report v w jestResults)
      else (JNum 0, 0, JNum 0, ''neutral''))"

section \<open>Building the record\<close>

record commit_record =
  sha :: string
  author :: string
  branch :: string
  commit_date :: string
  commit_message :: string
  commit_url :: string
  stats_total :: rat
  stats_additions :: rat
  stats_deletions :: rat
  stats_date :: string
  coverage :: rat
  test_count :: json
  failed_tests :: json
  conclusion :: string

text \<open>\<open>raw.replace(/\.git$/, "")\<close>\<close>

definition strip_dot_git :: "string \<Rightarrow> string" where
  "strip_dot_git raw = (if endsWith raw ''.git'' then take (length raw - 4) raw else raw)"

text \<open>
  \<open>raw.match(/^git@([^:]+):(.+)$/)\<close>: the host runs to the first colon, and the rest,
  which must not be empty, holds no line terminator.
\<close>

definition git_ssh_match :: "string \<Rightarrow> (string \<times> string) option" where
  "git_ssh_match raw =
     (if startsWith raw ''git@'' then
        let rest = drop 4 raw;
            host = takeWhile (\<lambda>c. c \<noteq> CHR '':'') rest;
            tail = dropWhile (\<lambda>c. c \<noteq> CHR '':'') rest
        in if host \<noteq> [] \<and> tail \<noteq> [] \<and> tl tail \<noteq> []
              \<and> list_all (\<lambda>c. c \<noteq> CHR 0x0A \<and> c \<noteq> CHR 0x0D) (tl tail)
           then Some (host, tl tail) else None
      else None)"

definition getRemoteHttpUrl :: "world \<Rightarrow> string" where
  "getRemoteHttpUrl w =
     (case sh w ''git config --get remote.origin.url'' of
        None \<Rightarrow> []
      | Some out \<Rightarrow>
        let raw = strip_dot_git out in
        if startsWith raw ''http'' then raw
        else
          (case git_ssh_match raw of
             Some (host, path) \<Rightarrow> ''https://'' @ host @ ''/'' @ path
           | None \<Rightarrow> []))"

text \<open>The parent to compare with: the first of \<open>%P\<close>, else \<open>sha~1\<close>.\<close>

definition parentRef :: "world \<Rightarrow> string \<Rightarrow> string" where
  "parentRef w sha0 =
     (case sh w (''git log -1 --pretty=%P '' @ sha0) of
        None \<Rightarrow> sha0 @ ''~1''
      | Some parents \<Rightarrow>
        if parents \<noteq> [] then
          let firstParent = takeWhile (\<lambda>c. c \<noteq> CHR '' '') parents in
          if firstParent \<noteq> [] then firstParent else sha0 @ ''~1''
        else sha0 @ ''~1'')"

text \<open>The path exclusions that each script passes to \<open>git diff\<close> and \<open>git show\<close>.\<close>

definition exclusions :: "variant \<Rightarrow> string" where
  "exclusions v =
     (case v of
        SingleFile \<Rightarrow> [CHR 0x22] @ '':!script/commit-history.json'' @ [CHR 0x22]
      | BranchMain \<Rightarrow> [CHR 0x22] @ '':!script/commit-history*.json'' @ [CHR 0x22]
      | GlobalBranch \<Rightarrow>
          [CHR 0x22] @ '':!script/commit-history.json'' @ [CHR 0x22] @ '' ''
          @ [CHR 0x22] @ '':!script/commit-history-*.json'' @ [CHR 0x22])"

definition diff_command :: "variant \<Rightarrow> world \<Rightarrow> string \<Rightarrow> string" where
  "diff_command v w sha0 =
     ''git diff --stat '' @ parentRef w sha0 @ '' '' @ sha0 @ '' -- '' @ exclusions v"

definition show_command :: "variant \<Rightarrow> string \<Rightarrow> string" where
  "show_command v sha0 = ''git show --stat '' @ sha0 @ '' -- '' @ exclusions v"

text \<open>
  \<open>(additions, deletions)\<close>. When \<open>git diff\<close> fails the scripts read \<open>git show\<close>:
  \<open>commit-tracker.js\<close> then sets \<open>deletions = 0\<close>, the other two read the deletions
  from the same output. When \<open>git show\<close> fails too, both stay 0.
\<close>

definition diff_stats :: "variant \<Rightarrow> world \<Rightarrow> string \<Rightarrow> rat \<times> rat" where
  "diff_stats v w sha0 =
     (case sh w (diff_command v w sha0) of
        Some diffStats \<Rightarrow>
          (count_or_zero (match_count ''insertion'' diffStats),
           count_or_zero (match_count ''deletion'' diffStats))
      | None \<Rightarrow>
        (case sh w (show_command v sha0) of
           None \<Rightarrow> (0, 0)
         | Some showStats \<Rightarrow>
           (count_or_zero (match_count ''insertion'' showStats),
            if v = SingleFile then 0
            else count_or_zero (match_count ''deletion'' showStats))))"

text \<open>\<open>getCommitInfo(sha)\<close>; \<open>None\<close> is the \<open>null\<close> returned when the metadata cannot be read.\<close>

definition getCommitInfo :: "variant \<Rightarrow> world \<Rightarrow> string \<Rightarrow> commit_record option" where
  "getCommitInfo v w sha0 =
     (case sh w (''git log -1 --pretty=%B '' @ sha0) of
        None \<Rightarrow> None
      | Some commitMessage \<Rightarrow>
        (case sh w (''git log -1 --pretty=%cI '' @ sha0) of
           None \<Rightarrow> None
         | Some commitDateIso \<Rightarrow>
           (case sh w (''git log -1 --pretty=%an '' @ sha0) of
              None \<Rightarrow> None
            | Some author0 \<Rightarrow>
              let repoUrl = getRemoteHttpUrl w;
                  commitUrl = (if repoUrl \<noteq> [] then repoUrl @ ''/commit/'' @ sha0 else []);
                  (additions, deletions) = diff_stats v w sha0;
                  (testCount, coverage0, failedTests, conclusion0) = run_tests v w;
                  branch0 =
                    (case sh w ''git rev-parse --abbrev-ref HEAD'' of
                       None \<Rightarrow> []
                     | Some b \<Rightarrow> b);
                  dateYmd = takeWhile (\<lambda>c. c \<noteq> CHR ''T'') commitDateIso
              in Some \<lparr> sha = sha0, author = author0, branch = branch0,
                        commit_date = commitDateIso, commit_message = commitMessage,
                        commit_url = commitUrl,
                        stats_total = double_of (additions + deletions),
                        stats_additions = additions, stats_deletions = deletions,
                        stats_date = dateYmd,
                        coverage = coverage0, test_count = testCount,
                        failed_tests = failedTests, conclusion = conclusion0 \<rparr>)))"

section \<open>History files\<close>

text \<open>
  A history file holds text that \<open>JSON.parse\<close> reads as a value (\<open>Doc\<close>), or that
  cannot be read or parsed (\<open>Garbage\<close>). \<open>JSON.stringify\<close> followed by \<open>JSON.parse\<close>
  gives the value back, so a written file is the \<open>Doc\<close> of what was written.
\<close>

datatype content = Garbage | Doc json

type_synonym files = "string \<Rightarrow> content option"

definition DATA_FILE :: string where
  "DATA_FILE = ''script/commit-history.json''"

definition HISTORY_DIR :: string where
  "HISTORY_DIR = ''script''"

text \<open>\<open>path.join(HISTORY_DIR, name)\<close> for a name without a separator, on POSIX.\<close>

definition MAIN_FILE :: string where
  "MAIN_FILE = HISTORY_DIR @ ''/'' @ ''commit-history-main.json''"

definition writeFileSync :: "world \<Rightarrow> files \<Rightarrow> string \<Rightarrow> content \<Rightarrow> error option \<times> files" where
  "writeFileSync w fs p c = (if writable w p then (None, fs(p \<mapsto> c)) else (Some WriteFailed, fs))"

text \<open>
  \<open>loadHistory(filePath)\<close> of the second script; the first and the third script write
  the same statements in line in \<open>saveCommitData\<close>.
\<close>

definition loadHistory :: "files \<Rightarrow> string \<Rightarrow> json list" where
  "loadHistory fs filePath =
     (case fs filePath of
        None \<Rightarrow> []
      | Some Garbage \<Rightarrow> []
      | Some (Doc dat) \<Rightarrow> (case dat of JArr xs \<Rightarrow> xs | _ \<Rightarrow> []))"

text \<open>The object that \<open>getCommitInfo\<close> returns, as the value \<open>JSON.stringify\<close> writes.\<close>

definition entry_json :: "commit_record \<Rightarrow> json" where
  "entry_json r =
     JObj [(''sha'', JStr (sha r)),
           (''author'', JStr (author r)),
           (''branch'', JStr (branch r)),
           (''commit'', JObj [(''date'', JStr (commit_date r)),
                              (''message'', JStr (commit_message r)),
                              (''url'', JStr (commit_url r))]),
           (''stats'', JObj [(''total'', JNum (stats_total r)),
                             (''additions'', JNum (stats_additions r)),
                             (''deletions'', JNum (stats_deletions r)),
                             (''date'', JStr (stats_date r))]),
           (''coverage'', JNum (coverage r)),
           (''test_count'', test_count r),
           (''failed_tests'', failed_tests r),
           (''conclusion'', JStr (conclusion r))]"

text \<open>
  \<open>new Date(a.commit.date)\<close> as a time value: the property reads throw when \<open>a\<close> or
  \<open>a.commit\<close> is \<open>null\<close> or \<open>undefined\<close>.
\<close>

definition date_key :: "world \<Rightarrow> json \<Rightarrow> error + int option" where
  "date_key w a =
     (if a = JNull then Inl TypeError
      else
        (case get_prop a ''commit'' of
           None \<Rightarrow> Inl TypeError
         | Some c \<Rightarrow> if c = JNull then Inl TypeError else date_value w (get_prop c ''date'')))"

text \<open>
  The comparator \<open>(a, b) => new Date(a.commit.date) - new Date(b.commit.date)\<close>;
  \<open>None\<close> is NaN.
\<close>

definition date_cmp :: "world \<Rightarrow> json \<Rightarrow> json \<Rightarrow> error + int option" where
  "date_cmp w a b =
     (case date_key w a of
        Inl e \<Rightarrow> Inl e
      | Inr x \<Rightarrow>
        (case date_key w b of
           Inl e \<Rightarrow> Inl e
         | Inr y \<Rightarrow>
           Inr (case x of
                  None \<Rightarrow> None
                | Some s \<Rightarrow> (case y of None \<Rightarrow> None | Some t \<Rightarrow> Some (s - t)))))"

text \<open>
  \<open>date_parses\<close>: the \<open>commit.date\<close> of a record can be read and gives a valid date;
  \<open>readable\<close>: the comparator can read it without an exception.
\<close>

definition date_parses :: "world \<Rightarrow> json \<Rightarrow> bool" where
  "date_parses w x = (case date_key w x of Inr (Some t) \<Rightarrow> True | _ \<Rightarrow> False)"

definition dates_ok :: "world \<Rightarrow> json list \<Rightarrow> bool" where
  "dates_ok w xs = list_all (date_parses w) xs"

definition readable :: "world \<Rightarrow> json \<Rightarrow> bool" where
  "readable w x = (case date_key w x of Inr t \<Rightarrow> True | Inl e \<Rightarrow> False)"

text \<open>
  \<open>Array.prototype.sort\<close> as V8, the engine of Node, runs it
  (\<open>third_party/v8/builtins/array-sort.tq\<close>). The number that the sort takes from a
  call of the comparator is its result, with 0 for NaN.
\<close>

definition order_of :: "int option \<Rightarrow> int" where
  "order_of d = (case d of Some n \<Rightarrow> n | None \<Rightarrow> 0)"

text \<open>
  \<open>CountAndMakeRun\<close>: the run at the head of the array. The first two elements say
  whether it descends strictly or ascends; it runs on while each element compares
  likewise to the one before it, and a descending run is reversed. The result is the
  run and the elements after it.
\<close>

fun extend_run ::
  "('a \<Rightarrow> 'a \<Rightarrow> error + int option) \<Rightarrow> bool \<Rightarrow> 'a \<Rightarrow> 'a list \<Rightarrow> error + 'a list \<times> 'a list" where
  "extend_run cmp isDescending previousElement [] = Inr ([], [])"
| "extend_run cmp isDescending previousElement (currentElement # rest) =
     (case cmp currentElement previousElement of
        Inl e \<Rightarrow> Inl e
      | Inr d \<Rightarrow>
        if (if isDescending then 0 \<le> order_of d else order_of d < 0)
        then Inr ([], currentElement # rest)
        else
          (case extend_run cmp isDescending currentElement rest of
             Inl e \<Rightarrow> Inl e
           | Inr (run, others) \<Rightarrow> Inr (currentElement # run, others)))"

definition CountAndMakeRun ::
  "('a \<Rightarrow> 'a \<Rightarrow> error + int option) \<Rightarrow> 'a list \<Rightarrow> error + 'a list \<times> 'a list" where
  "CountAndMakeRun cmp work =
     (case work of
        elementHigh # elementLow # rest \<Rightarrow>
          (case cmp elementLow elementHigh of
             Inl e \<Rightarrow> Inl e
           | Inr d \<Rightarrow>
             let isDescending = (order_of d < 0) in
             (case extend_run cmp isDescending elementLow rest of
                Inl e \<Rightarrow> Inl e
              | Inr (run, others) \<Rightarrow>
                Inr (if isDescending then rev (elementHigh # elementLow # run)
                     else elementHigh # elementLow # run, others)))
      | _ \<Rightarrow> Inr (work, []))"

text \<open>
  \<open>BinaryInsertionSort\<close>: each element after the run is the pivot in turn; a binary
  search between \<open>left\<close> and \<open>right\<close> finds its slot among the elements placed before it.
\<close>

function find_slot ::
  "('a \<Rightarrow> 'a \<Rightarrow> error + int option) \<Rightarrow> 'a \<Rightarrow> 'a list \<Rightarrow> nat \<Rightarrow> nat \<Rightarrow> error + nat" where
  "find_slot cmp pivot work left right =
     (if left < right then
        let mid = left + (right - left) div 2 in
        (case cmp pivot (work ! mid) of
           Inl e \<Rightarrow> Inl e
         | Inr d \<Rightarrow>
           if order_of d < 0 then find_slot cmp pivot work left mid
           else find_slot cmp pivot work (mid + 1) right)
      else Inr left)"
  by pat_completeness auto
termination
  by (relation "measure (\<lambda>(cmp, pivot, work, left, right). right - left)") auto

declare find_slot.simps [simp del]

fun BinaryInsertionSort ::
  "('a \<Rightarrow> 'a \<Rightarrow> error + int option) \<Rightarrow> 'a list \<Rightarrow> 'a list \<Rightarrow> error + 'a list" where
  "BinaryInsertionSort cmp placed [] = Inr placed"
| "BinaryInsertionSort cmp placed (pivot # rest) =
     (case find_slot cmp pivot placed 0 (length placed) of
        Inl e \<Rightarrow> Inl e
      | Inr left \<Rightarrow> BinaryInsertionSort cmp (take left placed @ pivot # drop left placed) rest)"

text \<open>
  \<open>ArrayTimSortImpl\<close> on an array of fewer than 64 elements, for which the minimal run
  length is the length of the array: the run at the head is extended to the whole
  array by binary insertion, and nothing is left to merge. An exception of the
  comparator leaves the sort. The sort is stable.
\<close>

definition ArrayTimSort ::
  "('a \<Rightarrow> 'a \<Rightarrow> error + int option) \<Rightarrow> 'a list \<Rightarrow> error + 'a list" where
  "ArrayTimSort cmp work =
     (if length work < 2 then Inr work
      else
        (case CountAndMakeRun cmp work of
           Inl e \<Rightarrow> Inl e
         | Inr (run, others) \<Rightarrow> BinaryInsertionSort cmp run others))"

text \<open>
  \<open>commits.sort((a, b) => new Date(a.commit.date) - new Date(b.commit.date))\<close>. On 64
  or more elements V8 merges several runs. When every date is valid the comparator
  orders the records, and the merged result is the one stable sorted order, which
  \<open>ArrayTimSort\<close> computes as well. When some date is invalid the order of the merged
  result is taken from the world (\<open>long_order\<close>); the result of a sort is a
  rearrangement of the array in every case, so a \<open>long_order\<close> that is none is not
  used. Every record of an array of two or more takes part in a comparison, so that
  one whose date cannot be read makes the sort throw.
\<close>

definition array_sort :: "world \<Rightarrow> json list \<Rightarrow> error + json list" where
  "array_sort w commits =
     (if length commits < 64 \<or> dates_ok w commits then ArrayTimSort (date_cmp w) commits
      else if list_all (readable w) commits then
        Inr (if mset (long_order w commits) = mset commits then long_order w commits
             else commits)
      else Inl TypeError)"

definition saveHistory :: "world \<Rightarrow> files \<Rightarrow> string \<Rightarrow> json list \<Rightarrow> error option \<times> files" where
  "saveHistory w fs filePath commits =
     (case array_sort w commits of
        Inl e \<Rightarrow> (Some e, fs)
      | Inr sorted_commits \<Rightarrow> writeFileSync w fs filePath (Doc (JArr sorted_commits)))"

definition appendEntry :: "world \<Rightarrow> files \<Rightarrow> string \<Rightarrow> json \<Rightarrow> error option \<times> files" where
  "appendEntry w fs filePath entry = saveHistory w fs filePath (loadHistory fs filePath @ [entry])"

text \<open>\<open>if (!fs.existsSync(p)) fs.writeFileSync(p, JSON.stringify([], null, 2))\<close>\<close>

definition ensure_file :: "world \<Rightarrow> files \<Rightarrow> string \<Rightarrow> error option \<times> files" where
  "ensure_file w fs p =
     (if fs p = None then writeFileSync w fs p (Doc (JArr [])) else (None, fs))"

section \<open>Validation and the three programs\<close>

text \<open>The three checks that \<open>commit-tracker.js\<close> makes at the head of \<open>saveCommitData\<close>.\<close>

definition head_checks :: "commit_record \<Rightarrow> error option" where
  "head_checks entry =
     (if sha entry = ''HEAD'' then Some ShaIsHead
      else if commit_url entry \<noteq> [] \<and> endsWith (commit_url entry) ''/commit/HEAD''
        then Some UrlEndsInHead
      else if commit_url entry \<noteq> [] \<and> \<not> endsWith (commit_url entry) (sha entry)
        then Some UrlNotSha
      else None)"

text \<open>\<open>validateEntry(entry)\<close> of the second script: the same three checks, then the branch.\<close>

definition validateEntry :: "commit_record \<Rightarrow> error option" where
  "validateEntry entry =
     (case head_checks entry of
        Some e \<Rightarrow> Some e
      | None \<Rightarrow> if branch entry = [] then Some MissingBranch else None)"

text \<open>
  The statements of every script between the first one and the persistence: the hash
  of \<open>HEAD\<close>, its check, \<open>getCommitInfo\<close> and the test for \<open>null\<close>.
\<close>

definition build_entry :: "variant \<Rightarrow> world \<Rightarrow> error + commit_record" where
  "build_entry v w =
     (case sh w ''git rev-parse HEAD'' of
        None \<Rightarrow> Inl CommandFailed
      | Some sha0 \<Rightarrow>
        if \<not> valid_sha sha0 then Inl InvalidSha
        else
          (case getCommitInfo v w sha0 of
             None \<Rightarrow> Inl NoEntry
           | Some entry \<Rightarrow> Inr entry))"

text \<open>\<open>saveCommitData(entry)\<close> of \<open>commit-tracker.js\<close>.\<close>

definition saveCommitData_single :: "world \<Rightarrow> files \<Rightarrow> commit_record \<Rightarrow> error option \<times> files" where
  "saveCommitData_single w fs entry =
     (case head_checks entry of
        Some e \<Rightarrow> (Some e, fs)
      | None \<Rightarrow> appendEntry w fs DATA_FILE (entry_json entry))"

text \<open>
  The statements of the second script after \<open>getCommitInfo\<close>: \<open>validateEntry\<close>, the
  file of the branch, and the file of \<open>main\<close> when the branch is \<open>main\<close>.
\<close>

definition BRANCH_FILE :: "commit_record \<Rightarrow> string" where
  "BRANCH_FILE entry =
     HISTORY_DIR @ ''/'' @ ''commit-history-'' @ sanitizeBranchName (branch entry) @ ''.json''"

definition persist_branch_main :: "world \<Rightarrow> files \<Rightarrow> commit_record \<Rightarrow> error option \<times> files" where
  "persist_branch_main w fs entry =
     (case validateEntry entry of
        Some e \<Rightarrow> (Some e, fs)
      | None \<Rightarrow>
        (case ensure_file w fs (BRANCH_FILE entry) of
           (Some e, fs1) \<Rightarrow> (Some e, fs1)
         | (None, fs1) \<Rightarrow>
           (case appendEntry w fs1 (BRANCH_FILE entry) (entry_json entry) of
              (Some e, fs2) \<Rightarrow> (Some e, fs2)
            | (None, fs2) \<Rightarrow>
              if branch entry = ''main'' then
                (case ensure_file w fs2 MAIN_FILE of
                   (Some e, fs3) \<Rightarrow> (Some e, fs3)
                 | (None, fs3) \<Rightarrow> appendEntry w fs3 MAIN_FILE (entry_json entry))
              else (None, fs2))))"

text \<open>
  \<open>saveCommitData(entry)\<close> of the third script: no check, the global file, then the
  file named by the branch as it is when the branch is neither empty nor \<open>HEAD\<close>.
\<close>

definition saveCommitData_global :: "world \<Rightarrow> files \<Rightarrow> commit_record \<Rightarrow> error option \<times> files" where
  "saveCommitData_global w fs entry =
     (case appendEntry w fs DATA_FILE (entry_json entry) of
        (Some e, fs1) \<Rightarrow> (Some e, fs1)
      | (None, fs1) \<Rightarrow>
        if branch entry \<noteq> [] \<and> branch entry \<noteq> ''HEAD'' then
          appendEntry w fs1 (''script/commit-history-'' @ branch entry @ ''.json'') (entry_json entry)
        else (None, fs1))"

text \<open>
  The programs: the exit status (1 from \<open>process.exit(1)\<close> in the \<open>catch\<close>, else 0) and
  the files they leave. The first and the third create the global file before they
  resolve \<open>HEAD\<close>; the second creates only the directory.
\<close>

definition persist :: "variant \<Rightarrow> world \<Rightarrow> files \<Rightarrow> commit_record \<Rightarrow> error option \<times> files" where
  "persist v w fs entry =
     (case v of
        SingleFile \<Rightarrow> saveCommitData_single w fs entry
      | BranchMain \<Rightarrow> persist_branch_main w fs entry
      | GlobalBranch \<Rightarrow> saveCommitData_global w fs entry)"

definition prepare :: "variant \<Rightarrow> world \<Rightarrow> files \<Rightarrow> error option \<times> files" where
  "prepare v w fs = (if v = BranchMain then (None, fs) else ensure_file w fs DATA_FILE)"

definition run :: "variant \<Rightarrow> world \<Rightarrow> files \<Rightarrow> nat \<times> files" where
  "run v w fs =
     (case prepare v w fs of
        (Some e, fs0) \<Rightarrow> (1, fs0)
      | (None, fs0) \<Rightarrow>
        (case build_entry v w of
           Inl e \<Rightarrow> (1, fs0)
         | Inr entry \<Rightarrow>
           (case persist v w fs0 entry of
              (Some e, fs1) \<Rightarrow> (1, fs1)
            | (None, fs1) \<Rightarrow> (0, fs1))))"

section \<open>The coverage as the specification words it\<close>

text \<open>
  A report of the shape \<open>coverageMap: { file: { s: {statementId: hitCount} } }\<close>: the
  hit counts of one file, and those of all files together. \<open>spec_coverage\<close> is the
  share of the counters with a hit count above 0, times 100, as an exact number before
  any rounding.
\<close>

definition spec_file_counters :: "json \<Rightarrow> rat list option" where
  "spec_file_counters f =
     (case get_prop f ''s'' of
        Some (JObj ss) \<Rightarrow> those (map (\<lambda>kv. case snd kv of JNum n \<Rightarrow> Some n | _ \<Rightarrow> None) ss)
      | _ \<Rightarrow> None)"

definition spec_counters :: "json \<Rightarrow> rat list option" where
  "spec_counters coverageMap =
     (case coverageMap of
        JObj fl \<Rightarrow> map_option concat (those (map (\<lambda>nf. spec_file_counters (snd nf)) fl))
      | _ \<Rightarrow> None)"

definition spec_coverage :: "rat list \<Rightarrow> rat" where
  "spec_coverage hs = of_nat (length (filter (\<lambda>h. 0 < h) hs)) / of_nat (length hs) * 100"

text \<open>The two forms the coverage of a record can take: the default, or a rounded share.\<close>

definition pct_form :: "variant \<Rightarrow> rat \<Rightarrow> bool" where
  "pct_form v c = (c = 0 \<or> (\<exists>cv t. cv \<le> t \<and> 0 < t \<and> c = coverage_pct v cv t))"

section \<open>Sorted histories\<close>

text \<open>
  \<open>date_le\<close> compares the parsed dates of two records as JavaScript compares two time
  values: an invalid date is NaN and is below or equal to nothing.
\<close>

definition the_date :: "world \<Rightarrow> json \<Rightarrow> int" where
  "the_date w x = (case date_key w x of Inr (Some t) \<Rightarrow> t | _ \<Rightarrow> 0)"

definition date_le :: "world \<Rightarrow> json \<Rightarrow> json \<Rightarrow> bool" where
  "date_le w a b = (date_parses w a \<and> date_parses w b \<and> the_date w a \<le> the_date w b)"

definition date_sorted :: "world \<Rightarrow> json list \<Rightarrow> bool" where
  "date_sorted w ys = sorted_wrt (date_le w) ys"

text \<open>
  \<open>step P x fs fs'\<close>: every file of \<open>fs'\<close> is as in \<open>fs\<close> or holds an array that
  satisfies \<open>P\<close>, and the records of every history are those it held before and \<open>x\<close>.
\<close>

definition step :: "(json list \<Rightarrow> bool) \<Rightarrow> json \<Rightarrow> files \<Rightarrow> files \<Rightarrow> bool" where
  "step P x fs fs' =
     (\<forall>p. (fs' p = fs p \<or> (\<exists>ys. fs' p = Some (Doc (JArr ys)) \<and> P ys))
          \<and> set (loadHistory fs' p) \<subseteq> insert x (set (loadHistory fs p)))"

text \<open>
  The files that the persistence step of a script may write for a record, and the
  condition that the dates of all records in these files parse.
\<close>

definition history_files :: "variant \<Rightarrow> commit_record \<Rightarrow> string list" where
  "history_files v e =
     (case v of
        SingleFile \<Rightarrow> [DATA_FILE]
      | BranchMain \<Rightarrow> [BRANCH_FILE e, MAIN_FILE]
      | GlobalBranch \<Rightarrow> [DATA_FILE, ''script/commit-history-'' @ branch e @ ''.json''])"

definition all_dates_ok :: "world \<Rightarrow> files \<Rightarrow> string list \<Rightarrow> bool" where
  "all_dates_ok w fs ps = list_all (\<lambda>p. dates_ok w (loadHistory fs p)) ps"

text \<open>
  An existing history file that cannot be read or parsed, or whose value is not an
  array.
\<close>

definition not_an_array :: "content option \<Rightarrow> bool" where
  "not_an_array c =
     (case c of
        None \<Rightarrow> False
      | Some Garbage \<Rightarrow> True
      | Some (Doc d) \<Rightarrow> (case d of JArr xs \<Rightarrow> False | _ \<Rightarrow> True))"

text \<open>
  The conditions of the specification on a record: the three on the hash and the URL,
  and those with the empty branch.
\<close>

definition forbidden_head :: "commit_record \<Rightarrow> bool" where
  "forbidden_head e =
     (sha e = ''HEAD'' \<or> endsWith (commit_url e) ''/commit/HEAD''
      \<or> (commit_url e \<noteq> [] \<and> \<not> endsWith (commit_url e) (sha e)))"

definition forbidden :: "commit_record \<Rightarrow> bool" where
  "forbidden e = (forbidden_head e \<or> branch e = [])"

section \<open>Concrete worlds\<close>

text \<open>
  A repository at its root commit, which adds one file of ten lines on the branch
  \<open>feature/x-1\<close>: \<open>git diff\<close> against \<open>sha~1\<close> fails and \<open>git show --stat\<close> prints the
  commit with its summary line. The test report counts four statements in two files,
  three of them executed.
\<close>

definition root_sha :: string where
  "root_sha = ''3f2a1bc9d04e5f6a7b8c9d0e1f2a3b4c5d6e7f80''"

definition root_date :: string where
  "root_date = ''2024-05-01T12:00:00+00:00''"

definition show_text :: "string \<Rightarrow> string \<Rightarrow> string" where
  "show_text sha0 message =
     ''commit '' @ sha0 @ [CHR 0x0A] @ ''Author: Ana <ana@example.org>'' @ [CHR 0x0A]
     @ ''Date:   Wed May 1 12:00:00 2024 +0000'' @ [CHR 0x0A, CHR 0x0A]
     @ ''    '' @ message @ [CHR 0x0A, CHR 0x0A]
     @ '' notes.txt | 10 ++++++++++'' @ [CHR 0x0A]
     @ '' 1 file changed, 10 insertions(+)''"

definition demo_sh ::
  "variant \<Rightarrow> string \<Rightarrow> string \<Rightarrow> string option \<Rightarrow> string \<Rightarrow> string option" where
  "demo_sh v sha0 message branch_out cmd =
     (if cmd = ''git rev-parse HEAD'' then Some sha0
      else if cmd = ''git log -1 --pretty=%B '' @ sha0 then Some message
      else if cmd = ''git log -1 --pretty=%cI '' @ sha0 then Some root_date
      else if cmd = ''git log -1 --pretty=%an '' @ sha0 then Some ''Ana''
      else if cmd = ''git log -1 --pretty=%P '' @ sha0 then Some []
      else if cmd = ''git config --get remote.origin.url''
        then Some ''git@github.com:Oswi142/proyecto-base.git''
      else if cmd = show_command v sha0 then Some (show_text sha0 message)
      else if cmd = ''git rev-parse --abbrev-ref HEAD'' then branch_out
      else None)"

definition good_map :: json where
  "good_map =
     JObj [(''src/a.js'', JObj [(''path'', JStr ''src/a.js''),
                               (''s'', JObj [(''0'', JNum 3), (''1'', JNum 0), (''2'', JNum 1)])]),
           (''src/b.js'', JObj [(''path'', JStr ''src/b.js''),
                               (''s'', JObj [(''0'', JNum 7)])])]"

definition good_report :: json where
  "good_report =
     JObj [(''numTotalTests'', JNum 10), (''numFailedTests'', JNum 2),
           (''coverageMap'', good_map)]"

text \<open>Time values of the dates that the concrete histories use.\<close>

definition demo_date :: "json option \<Rightarrow> error + int option" where
  "demo_date v =
     (if v = Some (JStr ''2024-05-01T12:00:00+00:00'') then Inr (Some 1714564800000)
      else if v = Some (JStr ''2024-04-30T09:00:00+00:00'') then Inr (Some 1714467600000)
      else if v = Some (JStr ''2024-05-02T08:30:00+00:00'') then Inr (Some 1714638600000)
      else Inr None)"

definition demo_world :: "variant \<Rightarrow> string \<Rightarrow> string \<Rightarrow> string option \<Rightarrow> world" where
  "demo_world v sha0 message branch_out =
     \<lparr> sh = demo_sh v sha0 message branch_out, package_json = True,
       jest_report = Report good_report,
       to_number = (\<lambda>x. Inr None), date_value = demo_date, writable = (\<lambda>p. True),
       long_order = (\<lambda>xs. xs) \<rparr>"

definition root_world :: "variant \<Rightarrow> string \<Rightarrow> world" where
  "root_world v message = demo_world v root_sha message (Some ''feature/x-1'')"

text \<open>
  The same world with a report whose coverage map has an entry without the statement
  counters \<open>s\<close>.
\<close>

definition broken_report :: json where
  "broken_report =
     JObj [(''numTotalTests'', JNum 10), (''numFailedTests'', JNum 2),
           (''coverageMap'', JObj [(''src/a.js'', JObj [(''path'', JStr ''src/a.js'')])])]"

definition broken_world :: "variant \<Rightarrow> world" where
  "broken_world v = (root_world v ''Add notes'') \<lparr> jest_report := Report broken_report \<rparr>"

text \<open>A record of an earlier run, and a history file that holds two of them.\<close>

definition demo_record :: "string \<Rightarrow> string \<Rightarrow> string \<Rightarrow> commit_record" where
  "demo_record sha0 branch0 date0 =
     \<lparr> sha = sha0, author = ''Ana'', branch = branch0,
       commit_date = date0, commit_message = ''Add notes'',
       commit_url = ''https://github.com/Oswi142/proyecto-base/commit/'' @ sha0,
       stats_total = 10, stats_additions = 10, stats_deletions = 0,
       stats_date = takeWhile (\<lambda>c. c \<noteq> CHR ''T'') date0,
       coverage = 75, test_count = JNum 10, failed_tests = JNum 2,
       conclusion = ''failure'' \<rparr>"

definition early_json :: json where
  "early_json = entry_json (demo_record ''0a1b2c3'' ''main'' ''2024-04-30T09:00:00+00:00'')"

definition late_json :: json where
  "late_json = entry_json (demo_record ''4d5e6f7'' ''main'' ''2024-05-02T08:30:00+00:00'')"

definition old_files :: files where
  "old_files = Map.empty(DATA_FILE \<mapsto> Doc (JArr [early_json, late_json]))"

text \<open>
  A record whose date is not one, and a history file, edited by hand, that holds it
  after a record of 2 May.
\<close>

definition undated_json :: json where
  "undated_json = entry_json (demo_record ''89a0b1c'' ''main'' ''yesterday'')"

definition mixed_files :: files where
  "mixed_files = Map.empty(DATA_FILE \<mapsto> Doc (JArr [late_json, undated_json]))"

text \<open>
  A report on one file with \<open>hit + miss\<close> statement counters, named \<open>0\<close>, \<open>1\<close>, ... as
  Jest names them, of which the first \<open>hit\<close> were executed once.
\<close>

fun counter_key :: "nat \<Rightarrow> string" where
  "counter_key n =
     (if n < 10 then [''0123456789'' ! n]
      else counter_key (n div 10) @ [''0123456789'' ! (n mod 10)])"

declare counter_key.simps [simp del]

definition counters :: "rat list \<Rightarrow> (string \<times> json) list" where
  "counters hs = map (\<lambda>(i, h). (counter_key i, JNum h)) (enumerate 0 hs)"

definition tie_counts :: "nat \<Rightarrow> nat \<Rightarrow> rat list" where
  "tie_counts hit miss = replicate hit 1 @ replicate miss 0"

definition tie_map :: "nat \<Rightarrow> nat \<Rightarrow> json" where
  "tie_map hit miss =
     JObj [(''src/a.js'', JObj [(''path'', JStr ''src/a.js''),
                               (''s'', JObj (counters (tie_counts hit miss)))])]"

definition tie_report :: "nat \<Rightarrow> nat \<Rightarrow> json" where
  "tie_report hit miss =
     JObj [(''numTotalTests'', JNum 10), (''numFailedTests'', JNum 0),
           (''coverageMap'', tie_map hit miss)]"

definition tie_world :: "variant \<Rightarrow> nat \<Rightarrow> nat \<Rightarrow> world" where
  "tie_world v hit miss =
     (root_world v ''Add notes'') \<lparr> jest_report := Report (tie_report hit miss) \<rparr>"

text \<open>
  A hash in upper case, as the check accepts it; the hash of a repository that uses
  SHA-256, which is 64 digits long; and a world in which
  \<open>git rev-parse --abbrev-ref HEAD\<close> fails.
\<close>

definition upper_sha :: string where
  "upper_sha = ''ABCDEF1''"

definition long_sha :: string where
  "long_sha = ''3f2a1bc9d04e5f6a7b8c9d0e1f2a3b4c5d6e7f803f2a1bc9d04e5f6a7b8c9d0e''"

definition no_branch_world :: "variant \<Rightarrow> world" where
  "no_branch_world v = demo_world v root_sha ''Add notes'' None"

text \<open>The root commit on a branch named \<open>fix#12\<close>.\<close>

definition hash_branch_world :: "variant \<Rightarrow> world" where
  "hash_branch_world v = demo_world v root_sha ''Add notes'' (Some ''fix#12'')"

section \<open>Doubles\<close>

lemma round_half_even_near: "\<bar>of_int (round_half_even y) - y\<bar> \<le> 1 / 2"
proof -
  have "of_int \<lfloor>y\<rfloor> \<le> y" "y < of_int \<lfloor>y\<rfloor> + 1" by linarith+
  then show ?thesis unfolding round_half_even_def Let_def by (simp add: abs_le_iff)
qed

lemma round_half_even_nonneg: "0 \<le> y \<Longrightarrow> 0 \<le> round_half_even y"
  unfolding round_half_even_def Let_def by auto

text \<open>The scaled mantissa is at least \<open>2^52\<close>: the bit lengths bound the number from below.\<close>

lemma scaled_lower:
  assumes "0 < a"
  shows "2 powi (bitlen (fst (quotient_of a)) - bitlen (snd (quotient_of a)) - 1) \<le> a"
proof -
  obtain p q where pq: "quotient_of a = (p, q)" by fastforce
  have q: "0 < q" by (rule quotient_of_denom_pos[OF pq])
  have a: "a = of_int p / of_int q" by (rule quotient_of_div[OF pq])
  have p: "0 < p" using assms q unfolding a by (simp add: zero_less_divide_iff)
  have bp: "1 \<le> bitlen p" using p by (simp add: bitlen_alt_def)
  have bq: "1 \<le> bitlen q" using q by (simp add: bitlen_alt_def)
  have "2 ^ nat (bitlen p - 1) \<le> p" using bitlen_bounds[OF p] by simp
  then have "(of_int (2 ^ nat (bitlen p - 1)) :: rat) \<le> of_int p" by (simp only: of_int_le_iff)
  then have lp: "(2 powi (bitlen p - 1) :: rat) \<le> of_int p"
    using bp by (simp add: power_int_def)
  have "q < 2 ^ nat (bitlen q)" using bitlen_bounds[OF q] by simp
  then have "(of_int q :: rat) < of_int (2 ^ nat (bitlen q))" by (simp only: of_int_less_iff)
  then have uq: "(of_int q :: rat) \<le> 2 powi (bitlen q)"
    using bq by (simp add: power_int_def)
  have "(2 powi (bitlen p - bitlen q - 1) :: rat) = 2 powi (bitlen p - 1) / 2 powi (bitlen q)"
    using power_int_diff[of "2::rat" "bitlen p - 1" "bitlen q"] by (simp add: algebra_simps)
  also have "\<dots> \<le> of_int p / of_int q"
    by (rule frac_le) (use lp uq q p in simp_all)
  finally have "(2 powi (bitlen p - bitlen q - 1) :: rat) \<le> a" by (simp only: a)
  moreover have "fst (quotient_of a) = p" "snd (quotient_of a) = q" by (simp_all add: pq)
  ultimately show ?thesis by (simp only:)
qed

text \<open>The relative error of a rounding to a double is at most \<open>2^-53\<close>.\<close>

lemma double_of_error:
  assumes "0 \<le> x"
  shows "\<bar>double_of x - x\<bar> \<le> x / 2 ^ 53"
proof (cases "x = 0")
  case True
  then show ?thesis by (simp add: double_of_def)
next
  case False
  with assms have x: "0 < x" by simp
  define d where "d = bitlen (fst (quotient_of x)) - bitlen (snd (quotient_of x))"
  define e where "e = (if x < 2 powi d then d - 53 else d - 52)"
  define y where "y = x / 2 powi e"
  have fl: "double_of x = of_int (round_half_even y) * 2 powi e"
    using x by (simp add: double_of_def Let_def d_def e_def y_def)
  have low: "(2 powi (d - 1) :: rat) \<le> x" using scaled_lower[OF x] by (simp add: d_def)
  have big: "(2 powi e :: rat) * 2 ^ 52 \<le> x"
  proof (cases "x < 2 powi d")
    case True
    have "(2 powi e :: rat) * 2 ^ 52 = 2 powi (d - 53) * 2 powi 52" using True by (simp add: e_def)
    also have "\<dots> = 2 powi (d - 53 + 52)" by (subst power_int_add) simp_all
    also have "\<dots> = 2 powi (d - 1)" by (simp add: algebra_simps)
    finally show ?thesis using low by simp
  next
    case False
    have "(2 powi e :: rat) * 2 ^ 52 = 2 powi (d - 52) * 2 powi 52" using False by (simp add: e_def)
    also have "\<dots> = 2 powi (d - 52 + 52)" by (subst power_int_add) simp_all
    also have "\<dots> = 2 powi d" by simp
    finally show ?thesis using False by simp
  qed
  have xy: "x = y * 2 powi e" by (simp add: y_def)
  have "double_of x - x = of_int (round_half_even y) * 2 powi e - y * 2 powi e"
    using xy fl by simp
  then have "double_of x - x = (of_int (round_half_even y) - y) * 2 powi e"
    by (simp add: algebra_simps)
  then have "\<bar>double_of x - x\<bar> = \<bar>of_int (round_half_even y) - y\<bar> * 2 powi e"
    by (simp add: abs_mult)
  also have "\<dots> \<le> (1 / 2) * 2 powi e"
    by (rule mult_right_mono[OF round_half_even_near]) simp
  also have "\<dots> \<le> x / 2 ^ 53" using big by (simp add: field_simps)
  finally show ?thesis .
qed

lemma double_of_nonneg: "0 \<le> x \<Longrightarrow> 0 \<le> double_of x"
  by (auto simp: double_of_def Let_def intro!: mult_nonneg_nonneg round_half_even_nonneg)

lemma double_of_upper: "0 \<le> x \<Longrightarrow> double_of x \<le> x + x / 2 ^ 53"
  using double_of_error[of x] unfolding abs_le_iff by simp

lemma double_of_lower: "0 \<le> x \<Longrightarrow> x - x / 2 ^ 53 \<le> double_of x"
  using double_of_error[of x] unfolding abs_le_iff by simp

lemma double_of_small:
  "double_of 0 = 0" "double_of 2 = 2" "double_of 3 = 3" "double_of 10 = 10"
  "double_of 12 = 12" "double_of 75 = 75" "double_of 100 = 100"
  by code_simp+

text \<open>
  The argument of \<open>Math.round\<close> is within \<open>10^-11\<close> of the exact \<open>covered / total * 10000\<close>:
  three roundings in the first and the third script, two in the second.
\<close>

lemma scaled_ratio_near:
  assumes "c \<le> t" "0 < t"
  shows "0 \<le> scaled_ratio v c t
       \<and> \<bar>scaled_ratio v c t - of_nat c / of_nat t * 10000\<bar> \<le> 1 / 10 ^ 11"
proof -
  define x :: rat where "x = of_nat c / of_nat t"
  define q where "q = double_of x"
  have x0: "0 \<le> x" by (simp add: x_def)
  have x1: "x \<le> 1" using assms by (simp add: x_def divide_le_eq_1)
  have q0: "0 \<le> q" unfolding q_def by (rule double_of_nonneg[OF x0])
  have qu: "q \<le> x + x / 2 ^ 53" unfolding q_def by (rule double_of_upper[OF x0])
  have ql: "x - x / 2 ^ 53 \<le> q" unfolding q_def by (rule double_of_lower[OF x0])
  show ?thesis
  proof (cases "v = BranchMain")
    case True
    define s where "s = double_of (q * 10000)"
    have a0: "0 \<le> q * 10000" using q0 by simp
    have s0: "0 \<le> s" unfolding s_def by (rule double_of_nonneg[OF a0])
    have su: "s \<le> q * 10000 + q * 10000 / 2 ^ 53" unfolding s_def by (rule double_of_upper[OF a0])
    have sl: "q * 10000 - q * 10000 / 2 ^ 53 \<le> s" unfolding s_def by (rule double_of_lower[OF a0])
    have e: "scaled_ratio v c t = s"
      using True by (simp add: scaled_ratio_def Let_def s_def q_def x_def)
    have "s - x * 10000 \<le> 1 / 10 ^ 11" using x0 x1 qu ql su sl by simp
    moreover have "- (s - x * 10000) \<le> 1 / 10 ^ 11" using x0 x1 qu ql su sl by simp
    ultimately have "\<bar>s - x * 10000\<bar> \<le> 1 / 10 ^ 11" by (rule abs_leI)
    then show ?thesis using s0 unfolding e x_def by simp
  next
    case False
    define p where "p = double_of (q * 100)"
    define s where "s = double_of (p * 100)"
    have a0: "0 \<le> q * 100" using q0 by simp
    have p0: "0 \<le> p" unfolding p_def by (rule double_of_nonneg[OF a0])
    have pu: "p \<le> q * 100 + q * 100 / 2 ^ 53" unfolding p_def by (rule double_of_upper[OF a0])
    have pl: "q * 100 - q * 100 / 2 ^ 53 \<le> p" unfolding p_def by (rule double_of_lower[OF a0])
    have b0: "0 \<le> p * 100" using p0 by simp
    have s0: "0 \<le> s" unfolding s_def by (rule double_of_nonneg[OF b0])
    have su: "s \<le> p * 100 + p * 100 / 2 ^ 53" unfolding s_def by (rule double_of_upper[OF b0])
    have sl: "p * 100 - p * 100 / 2 ^ 53 \<le> s" unfolding s_def by (rule double_of_lower[OF b0])
    have e: "scaled_ratio v c t = s"
      using False by (simp add: scaled_ratio_def Let_def s_def p_def q_def x_def)
    have "s - x * 10000 \<le> 1 / 10 ^ 11" using x0 x1 qu ql pu pl su sl by simp
    moreover have "- (s - x * 10000) \<le> 1 / 10 ^ 11" using x0 x1 qu ql pu pl su sl by simp
    ultimately have "\<bar>s - x * 10000\<bar> \<le> 1 / 10 ^ 11" by (rule abs_leI)
    then show ?thesis using s0 unfolding e x_def by simp
  qed
qed

lemma math_round_near: "\<bar>of_int (math_round x) - x\<bar> \<le> 1 / 2"
  unfolding math_round_def by linarith

lemma rounded_bounds:
  assumes "c \<le> t" "0 < t"
  shows "0 \<le> math_round (scaled_ratio v c t) \<and> math_round (scaled_ratio v c t) \<le> 10000"
proof -
  define s where "s = scaled_ratio v c t"
  have x1: "(of_nat c / of_nat t :: rat) \<le> 1" using assms by (simp add: divide_le_eq_1)
  from scaled_ratio_near[OF assms, of v]
  have s0: "0 \<le> s" and n: "\<bar>s - of_nat c / of_nat t * 10000\<bar> \<le> 1 / 10 ^ 11"
    by (simp_all add: s_def)
  have "s - of_nat c / of_nat t * 10000 \<le> 1 / 10 ^ 11" using n unfolding abs_le_iff by simp
  then have s1: "s \<le> 10000 + 1 / 10 ^ 11" using x1 by simp
  have "0 \<le> math_round s" unfolding math_round_def using s0 by (simp add: le_floor_iff)
  moreover have "math_round s \<le> 10000" unfolding math_round_def using s1 by (simp add: floor_le_iff)
  ultimately show ?thesis by (simp add: s_def)
qed

lemma coverage_pct_bounds:
  assumes "c \<le> t" "0 < t"
  shows "0 \<le> coverage_pct v c t \<and> coverage_pct v c t \<le> 100"
proof -
  define k where "k = math_round (scaled_ratio v c t)"
  have k: "0 \<le> k" "k \<le> 10000" using rounded_bounds[OF assms, of v] by (simp_all add: k_def)
  have e: "coverage_pct v c t = double_of (of_int k / 100)" by (simp add: coverage_pct_def k_def)
  have y0: "(0::rat) \<le> of_int k / 100" using k(1) by simp
  have lo: "0 \<le> coverage_pct v c t" unfolding e by (rule double_of_nonneg[OF y0])
  have hi: "coverage_pct v c t \<le> 100"
  proof (cases "k = 10000")
    case True
    then show ?thesis unfolding e by (simp add: double_of_small)
  next
    case False
    with k(2) have "k \<le> 9999" by simp
    then have "(of_int k :: rat) \<le> of_int 9999" by (simp only: of_int_le_iff)
    then have y1: "(of_int k / 100 :: rat) \<le> 9999 / 100" by simp
    from double_of_upper[OF y0] y1 show ?thesis unfolding e by simp
  qed
  from lo hi show ?thesis ..
qed

lemma rounded_near:
  assumes "c \<le> t" "0 < t"
  shows "\<bar>of_int (math_round (scaled_ratio v c t)) - (of_nat c / of_nat t * 10000 :: rat)\<bar>
           \<le> 1 / 2 + 1 / 10 ^ 11"
proof -
  define s where "s = scaled_ratio v c t"
  define y :: rat where "y = of_nat c / of_nat t * 10000"
  define k :: rat where "k = of_int (math_round s)"
  have a: "\<bar>k - s\<bar> \<le> 1 / 2" unfolding k_def by (rule math_round_near)
  have b: "\<bar>s - y\<bar> \<le> 1 / 10 ^ 11"
    using scaled_ratio_near[OF assms, of v] by (simp add: s_def y_def)
  have "\<bar>k - y\<bar> \<le> \<bar>k - s\<bar> + \<bar>s - y\<bar>" by linarith
  also have "\<dots> \<le> 1 / 2 + 1 / 10 ^ 11" by (rule add_mono[OF a b])
  finally show ?thesis by (simp only: s_def y_def k_def)
qed

text \<open>
  With at most \<open>2^32\<close> counters the exact value is either a tie or further from one
  than the error of the doubles, so the rounded integer is a nearest one.
\<close>

lemma rounded_exact:
  assumes "c \<le> t" "0 < t" "t \<le> 2 ^ 32"
  shows "\<bar>of_int (math_round (scaled_ratio v c t)) - (of_nat c / of_nat t * 10000 :: rat)\<bar>
           \<le> 1 / 2"
proof -
  define k where "k = math_round (scaled_ratio v c t)"
  define d :: int where "d = k * int t - 10000 * int c"
  have tpos: "(0::rat) < of_nat t" using assms(2) by simp
  have tb: "(of_nat t :: rat) \<le> 2 ^ 32"
    using assms(3) by (metis of_nat_le_iff of_nat_numeral of_nat_power)
  have dq: "of_int k - of_nat c / of_nat t * 10000 = (of_int d :: rat) / of_nat t"
    using assms(2) by (simp add: d_def field_simps)
  have "\<bar>(of_int d :: rat) / of_nat t\<bar> \<le> 1 / 2 + 1 / 10 ^ 11"
    using rounded_near[OF assms(1,2), of v] by (simp only: k_def[symmetric] dq)
  then have "\<bar>of_int d :: rat\<bar> / of_nat t \<le> 1 / 2 + 1 / 10 ^ 11"
    using tpos by (simp add: abs_divide)
  then have "\<bar>of_int d :: rat\<bar> \<le> (1 / 2 + 1 / 10 ^ 11) * of_nat t"
    using tpos by (simp add: pos_divide_le_eq)
  then have "2 * \<bar>of_int d :: rat\<bar> \<le> of_nat t + 2 / 10 ^ 11 * of_nat t"
    by (simp add: algebra_simps)
  also have "\<dots> < of_nat t + 1" using tb by simp
  finally have "(of_int (2 * \<bar>d\<bar>) :: rat) < of_int (int t + 1)" by simp
  then have "2 * \<bar>d\<bar> < int t + 1" by (simp only: of_int_less_iff)
  then have "2 * \<bar>d\<bar> \<le> int t" by simp
  then have "(of_int (2 * \<bar>d\<bar>) :: rat) \<le> of_int (int t)" by (simp only: of_int_le_iff)
  then have "\<bar>of_int d :: rat\<bar> \<le> of_nat t / 2" by simp
  then have "\<bar>of_int d :: rat\<bar> / of_nat t \<le> 1 / 2"
    using tpos by (simp add: pos_divide_le_eq)
  then have "\<bar>(of_int d :: rat) / of_nat t\<bar> \<le> 1 / 2" using tpos by (simp add: abs_divide)
  then show ?thesis by (simp only: k_def[symmetric] dq)
qed

lemma coverage_pct_rep:
  assumes "c \<le> t" "0 < t"
  shows "\<bar>coverage_pct v c t - of_int (math_round (scaled_ratio v c t)) / 100\<bar> \<le> 1 / 10 ^ 13"
proof -
  define k where "k = math_round (scaled_ratio v c t)"
  have k: "0 \<le> k" "k \<le> 10000" using rounded_bounds[OF assms, of v] by (simp_all add: k_def)
  have y0: "(0::rat) \<le> of_int k / 100" using k(1) by simp
  have "(of_int k :: rat) \<le> of_int 10000" using k(2) by (simp only: of_int_le_iff)
  then have y1: "(of_int k / 100 :: rat) \<le> 100" by simp
  have "\<bar>double_of (of_int k / 100) - of_int k / 100\<bar> \<le> (of_int k / 100) / 2 ^ 53"
    by (rule double_of_error[OF y0])
  also have "\<dots> \<le> 1 / 10 ^ 13" using y1 by simp
  finally show ?thesis by (simp add: coverage_pct_def k_def)
qed

text \<open>
  The coverage as a two-decimal number \<open>k / 100\<close>, written as a double, and its
  distance from the exact percentage.
\<close>

lemma coverage_pct_rounded:
  assumes "c \<le> t" "0 < t"
  shows "\<exists>k. coverage_pct v c t = double_of (of_int k / 100)
           \<and> \<bar>of_int k / 100 - (of_nat c / of_nat t * 100 :: rat)\<bar> \<le> 1 / 200 + 1 / 10 ^ 13
           \<and> (t \<le> 2 ^ 32 \<longrightarrow>
                \<bar>of_int k / 100 - (of_nat c / of_nat t * 100 :: rat)\<bar> \<le> 1 / 200)"
proof -
  define k where "k = math_round (scaled_ratio v c t)"
  define y :: rat where "y = of_nat c / of_nat t"
  have e: "of_int k / 100 - y * 100 = (of_int k - y * 10000) / 100" by (simp add: field_simps)
  have a: "\<bar>of_int k - y * 10000\<bar> \<le> 1 / 2 + 1 / 10 ^ 11"
    using rounded_near[OF assms, of v] by (simp only: k_def y_def)
  have "\<bar>(of_int k - y * 10000) / 100\<bar> = \<bar>of_int k - y * 10000\<bar> / 100"
    by (simp only: abs_divide abs_numeral)
  also have "\<dots> \<le> (1 / 2 + 1 / 10 ^ 11) / 100" using a by (simp only: divide_right_mono zero_le_numeral)
  finally have 1: "\<bar>of_int k / 100 - y * 100\<bar> \<le> 1 / 200 + 1 / 10 ^ 13" unfolding e by simp
  have 2: "\<bar>of_int k / 100 - y * 100\<bar> \<le> 1 / 200" if "t \<le> 2 ^ 32"
  proof -
    have b: "\<bar>of_int k - y * 10000\<bar> \<le> 1 / 2"
      using rounded_exact[OF assms that, of v] by (simp only: k_def y_def)
    have "\<bar>(of_int k - y * 10000) / 100\<bar> = \<bar>of_int k - y * 10000\<bar> / 100"
      by (simp only: abs_divide abs_numeral)
    also have "\<dots> \<le> (1 / 2) / 100" using b by (simp only: divide_right_mono zero_le_numeral)
    finally show ?thesis unfolding e by simp
  qed
  have "coverage_pct v c t = double_of (of_int k / 100)" by (simp add: coverage_pct_def k_def)
  with 1 2 show ?thesis unfolding y_def by blast
qed

lemma coverage_pct_near:
  assumes "c \<le> t" "0 < t"
  shows "\<bar>coverage_pct v c t - of_nat c / of_nat t * 100\<bar> \<le> 1 / 200 + 2 / 10 ^ 13"
proof -
  define k :: rat where "k = of_int (math_round (scaled_ratio v c t)) / 100"
  define y :: rat where "y = of_nat c / of_nat t * 100"
  have e: "k - y = (of_int (math_round (scaled_ratio v c t)) - of_nat c / of_nat t * 10000) / 100"
    by (simp add: k_def y_def field_simps)
  have "\<bar>k - y\<bar> = \<bar>of_int (math_round (scaled_ratio v c t)) - (of_nat c / of_nat t * 10000 :: rat)\<bar> / 100"
    unfolding e by (simp only: abs_divide abs_numeral)
  also have "\<dots> \<le> (1 / 2 + 1 / 10 ^ 11) / 100"
    using rounded_near[OF assms, of v] by (simp only: divide_right_mono zero_le_numeral)
  finally have a: "\<bar>k - y\<bar> \<le> 1 / 200 + 1 / 10 ^ 13" by simp
  have b: "\<bar>coverage_pct v c t - k\<bar> \<le> 1 / 10 ^ 13"
    using coverage_pct_rep[OF assms, of v] by (simp only: k_def)
  have "\<bar>coverage_pct v c t - y\<bar> \<le> \<bar>coverage_pct v c t - k\<bar> + \<bar>k - y\<bar>" by linarith
  also have "\<dots> \<le> 1 / 10 ^ 13 + (1 / 200 + 1 / 10 ^ 13)" by (rule add_mono[OF b a])
  finally show ?thesis unfolding y_def by simp
qed

section \<open>Coverage of the test report\<close>

lemma count_hits_nums:
  "count_hits w (map JNum ns) = Inr (length (filter (\<lambda>h. 0 < h) ns))"
  by (induction ns) (auto simp: gt_zero_def)

lemma those_nums:
  "those (map (\<lambda>kv. case snd kv of JNum n \<Rightarrow> Some n | _ \<Rightarrow> None) ss) = Some hs
     \<Longrightarrow> map snd ss = map JNum hs"
  by (induction ss arbitrary: hs) (auto split: option.splits json.splits)

lemma spec_file_counters_code:
  assumes "spec_file_counters f = Some hs"
  shows "f \<noteq> JNull \<and> keys_length (get_prop f ''s'') = Inr (length hs)
         \<and> object_values (get_prop f ''s'') = Inr (map JNum hs)"
proof -
  from assms obtain ss where s: "get_prop f ''s'' = Some (JObj ss)"
    and t: "those (map (\<lambda>kv. case snd kv of JNum n \<Rightarrow> Some n | _ \<Rightarrow> None) ss) = Some hs"
    by (auto simp: spec_file_counters_def split: option.splits json.splits)
  have m: "map snd ss = map JNum hs" by (rule those_nums[OF t])
  have "length ss = length hs" using arg_cong[OF m, of length] by simp
  moreover have "f \<noteq> JNull" using s by (auto simp: get_prop_def)
  ultimately show ?thesis using s m by (simp add: keys_length_def object_values_def)
qed

lemma coverage_loop_spec:
  "those (map (\<lambda>nf. spec_file_counters (snd nf)) fl) = Some hss \<Longrightarrow>
   coverage_loop w (map snd fl) c t =
     Inr (c + length (filter (\<lambda>h. 0 < h) (concat hss)), t + length (concat hss))"
proof (induction fl arbitrary: c t hss)
  case Nil
  then show ?case by simp
next
  case (Cons nf fl)
  from Cons.prems obtain hs rest where
    f: "spec_file_counters (snd nf) = Some hs" and
    r: "those (map (\<lambda>nf. spec_file_counters (snd nf)) fl) = Some rest" and
    e: "hss = hs # rest"
    by (auto split: option.splits)
  note code = spec_file_counters_code[OF f]
  show ?case using code Cons.IH[OF r] e
    by (simp add: count_hits_nums Let_def)
qed

lemma coverage_of_spec:
  assumes "get_prop j ''coverageMap'' = Some cm" "spec_counters cm = Some hs"
  shows "coverage_of v w j =
     Inr (if hs = [] then 0
          else coverage_pct v (length (filter (\<lambda>h. 0 < h) hs)) (length hs))"
proof -
  from assms(2) obtain fl hss where cm: "cm = JObj fl"
    and t: "those (map (\<lambda>nf. spec_file_counters (snd nf)) fl) = Some hss"
    and hs: "hs = concat hss"
    by (auto simp: spec_counters_def split: json.splits)
  show ?thesis
    using assms(1) coverage_loop_spec[OF t, of w 0 0]
    by (simp add: coverage_of_def cm hs truthy_def object_values_def)
qed

lemma process_report_cov:
  "j \<noteq> JNull \<Longrightarrow> coverage_of v w j = Inr c \<Longrightarrow> fst (snd (process_report v w j)) = c"
  by (auto simp: process_report_def Let_def split: sum.splits)

lemma count_hits_le: "count_hits w vs = Inr n \<Longrightarrow> n \<le> length vs"
  by (induction vs arbitrary: n) (auto split: sum.splits if_splits)

lemma keys_values_length:
  "keys_length s = Inr t \<Longrightarrow> object_values s = Inr vs \<Longrightarrow> length vs = t"
  by (auto simp: keys_length_def object_values_def split: option.splits json.splits)

lemma coverage_loop_le:
  "coverage_loop w files c t = Inr (c', t') \<Longrightarrow> c \<le> t \<Longrightarrow> c' \<le> t'"
proof (induction files arbitrary: c t)
  case Nil
  then show ?case by simp
next
  case (Cons f files)
  from Cons.prems(1) obtain ft vs fc where
    k: "keys_length (get_prop f ''s'') = Inr ft" and
    v: "object_values (get_prop f ''s'') = Inr vs" and
    h: "count_hits w vs = Inr fc" and
    r: "coverage_loop w files (c + fc) (t + ft) = Inr (c', t')"
    by (auto simp: Let_def split: if_splits sum.splits)
  have "fc \<le> ft" using count_hits_le[OF h] keys_values_length[OF k v] by simp
  with Cons.prems(2) have "c + fc \<le> t + ft" by simp
  from Cons.IH[OF r this] show ?case .
qed

lemma coverage_of_form:
  assumes "coverage_of v w j = Inr c"
  shows "pct_form v c"
proof (cases "truthy (get_prop j ''coverageMap'')")
  case False
  with assms show ?thesis by (simp add: coverage_of_def pct_form_def)
next
  case True
  with assms obtain files cv t where
    l: "coverage_loop w files 0 0 = Inr (cv, t)" and
    c: "c = (if 0 < t then coverage_pct v cv t else 0)"
    by (auto simp: coverage_of_def Let_def split: sum.splits)
  have "cv \<le> t" using coverage_loop_le[OF l] by simp
  then show ?thesis unfolding pct_form_def c by auto
qed

lemma process_report_form: "process_report v w j = (tc, c, ft, cn) \<Longrightarrow> pct_form v c"
  by (auto simp: process_report_def Let_def pct_form_def[of v 0] split: if_splits sum.splits dest: coverage_of_form)

lemma run_tests_form: "run_tests v w = (tc, c, ft, cn) \<Longrightarrow> pct_form v c"
  by (auto simp: run_tests_def pct_form_def[of v 0] split: if_splits report_file.splits dest: process_report_form)

lemma getCommitInfo_tests:
  "getCommitInfo v w s = Some r \<Longrightarrow>
     run_tests v w = (test_count r, coverage r, failed_tests r, conclusion r)"
  by (auto simp: getCommitInfo_def Let_def split: option.splits prod.splits)

lemma getCommitInfo_Some:
  assumes "sh w (''git log -1 --pretty=%B '' @ s) = Some m"
    "sh w (''git log -1 --pretty=%cI '' @ s) = Some d"
    "sh w (''git log -1 --pretty=%an '' @ s) = Some a"
  shows "\<exists>r. getCommitInfo v w s = Some r"
  using assms by (simp add: getCommitInfo_def Let_def split: prod.splits)

lemma demo_info: "\<exists>r. getCommitInfo v (demo_world v s m b) s = Some r"
  by (rule getCommitInfo_Some) (simp_all add: demo_world_def demo_sh_def)

text \<open>
  C10: in every record that \<open>getCommitInfo\<close> returns the coverage lies between 0 and
  100. It is either the default 0 or the share \<open>covered / total\<close> of a report, times
  100 and rounded to two decimals as the script computes it in doubles, where
  \<open>covered\<close> never exceeds \<open>total\<close>.
\<close>

theorem coverage_in_range:
  assumes "getCommitInfo v w sha0 = Some r"
  shows "0 \<le> coverage r \<and> coverage r \<le> 100
         \<and> (coverage r = 0 \<or> (\<exists>covered total'. covered \<le> total' \<and> 0 < total'
              \<and> coverage r = coverage_pct v covered total'))"
proof -
  have "pct_form v (coverage r)"
    by (rule run_tests_form[OF getCommitInfo_tests[OF assms]])
  then show ?thesis unfolding pct_form_def using coverage_pct_bounds by auto
qed

lemmas js_defs = get_prop_def truthy_def or_zero_def object_values_def keys_length_def gt_zero_def
lemmas test_defs = run_tests_def process_report_def coverage_of_def conclusion_of_def

lemma good_counters: "spec_counters good_map = Some [3, 0, 1, 7]"
  by (simp add: spec_counters_def spec_file_counters_def good_map_def get_prop_def)

lemma three_of_four:
  "coverage_pct SingleFile 3 4 = 75" "coverage_pct BranchMain 3 4 = 75"
  "coverage_pct GlobalBranch 3 4 = 75"
  by code_simp+

lemma good_report_props:
  "good_report \<noteq> JNull"
  "get_prop good_report ''coverageMap'' = Some good_map"
  "or_zero (get_prop good_report ''numTotalTests'') = JNum 10"
  "or_zero (get_prop good_report ''numFailedTests'') = JNum 2"
  by (simp_all add: good_report_def js_defs)

lemma good_coverage: "coverage_of v w good_report = Inr 75"
proof -
  have "length (filter (\<lambda>h. 0 < h) [3, 0, 1, 7 :: rat]) = 3" "length [3, 0, 1, 7 :: rat] = 4"
    by simp_all
  then have "coverage_of v w good_report = Inr (coverage_pct v 3 4)"
    using coverage_of_spec[OF good_report_props(2) good_counters, of v w] by (simp only: list.simps if_False)
  then show ?thesis by (cases v) (simp_all add: three_of_four)
qed

lemma good_tests: "run_tests v (demo_world v' s m b) = (JNum 10, 75, JNum 2, ''failure'')"
  by (simp add: run_tests_def process_report_def good_report_props good_coverage conclusion_of_def
      gt_zero_def demo_world_def)

lemma broken_tests: "run_tests v (broken_world v') = (JNum 10, 0, JNum 2, ''neutral'')"
  by (simp add: broken_world_def root_world_def demo_world_def broken_report_def test_defs js_defs Let_def)

theorem coverage_in_range_witness:
  "\<exists>r. getCommitInfo SingleFile (root_world SingleFile ''Add notes'') root_sha = Some r
       \<and> coverage r = 75 \<and> 0 \<le> coverage r \<and> coverage r \<le> 100"
proof -
  obtain r where r: "getCommitInfo SingleFile (root_world SingleFile ''Add notes'') root_sha = Some r"
    unfolding root_world_def using demo_info by blast
  have "coverage r = 75"
    using getCommitInfo_tests[OF r] by (simp add: root_world_def good_tests)
  with r coverage_in_range[OF r] show ?thesis by blast
qed

lemma run_tests_cov:
  assumes "package_json w" "jest_report w = Report j" "j \<noteq> JNull" "coverage_of v w j = Inr c"
  shows "fst (snd (run_tests v w)) = c"
  using assms by (simp add: run_tests_def process_report_cov)

lemma run_tests_default:
  assumes "\<not> package_json w \<or> jest_report w = NoReport \<or> jest_report w = Unreadable"
  shows "run_tests v w = (JNum 0, 0, JNum 0, ''neutral'')"
  using assms by (auto simp: run_tests_def)

lemma coverage_of_falsy:
  "\<not> truthy (get_prop j ''coverageMap'') \<Longrightarrow> coverage_of v w j = Inr 0"
  by (simp add: coverage_of_def)

lemma process_report_zero:
  "coverage_of v w j = Inr 0 \<Longrightarrow> fst (snd (process_report v w j)) = 0"
  by (auto simp: process_report_def Let_def split: sum.splits)

lemma run_tests_zero:
  "jest_report w = Report j \<Longrightarrow> coverage_of v w j = Inr 0 \<Longrightarrow> fst (snd (run_tests v w)) = 0"
  by (simp add: run_tests_def process_report_zero)

text \<open>
  C7, amended: for a report whose coverage map has the shape of the specification, with
  the hit counts \<open>hs\<close> of all files together, the coverage of the record is
  \<open>Math.round(p) / 100\<close> in double arithmetic, where \<open>p\<close> is the double product
  \<open>((covered / total) * 100) * 100\<close> (\<open>(covered / total) * 10000\<close> in the second script),
  \<open>covered\<close> the number of counters above 0 and \<open>total\<close> the number of counters. It is the
  double of a two-decimal number \<open>k / 100\<close> that lies within 0.005 of \<open>spec_coverage hs\<close>
  when there are at most \<open>2^32\<close> counters (within \<open>0.005 + 10^-13\<close> in any case); when the
  exact percentage lies halfway between two such numbers, either may be taken.
  Without \<open>package.json\<close>, without a readable report, without a coverage map or without
  any counter the coverage is 0.
\<close>

theorem coverage_field:
  assumes "getCommitInfo v w sha0 = Some r"
  shows "(package_json w \<and> jest_report w = Report j \<and> get_prop j ''coverageMap'' = Some cm
            \<and> spec_counters cm = Some hs \<and> hs \<noteq> [] \<longrightarrow>
          coverage r = coverage_pct v (length (filter (\<lambda>h. 0 < h) hs)) (length hs)
          \<and> (\<exists>k. coverage r = double_of (of_int k / 100)
                \<and> \<bar>of_int k / 100 - spec_coverage hs\<bar> \<le> 1 / 200 + 1 / 10 ^ 13
                \<and> (length hs \<le> 2 ^ 32 \<longrightarrow> \<bar>of_int k / 100 - spec_coverage hs\<bar> \<le> 1 / 200))
          \<and> \<bar>coverage r - spec_coverage hs\<bar> \<le> 1 / 200 + 2 / 10 ^ 13)
       \<and> (\<not> package_json w \<or> jest_report w = NoReport \<or> jest_report w = Unreadable
            \<or> (jest_report w = Report j \<and> \<not> truthy (get_prop j ''coverageMap''))
            \<or> (jest_report w = Report j \<and> get_prop j ''coverageMap'' = Some cm
                 \<and> spec_counters cm = Some []) \<longrightarrow>
          coverage r = 0)"
proof (intro conjI impI)
  note t = getCommitInfo_tests[OF assms]
  have cov: "coverage r = fst (snd (run_tests v w))" by (simp add: t)
  {
    assume a: "package_json w \<and> jest_report w = Report j \<and> get_prop j ''coverageMap'' = Some cm
            \<and> spec_counters cm = Some hs \<and> hs \<noteq> []"
    then have nn: "j \<noteq> JNull" by (auto simp: get_prop_def)
    let ?c = "length (filter (\<lambda>h. 0 < h) hs)" and ?t = "length hs"
    have le: "?c \<le> ?t" "0 < ?t" using a by simp_all
    have "coverage_of v w j = Inr (coverage_pct v ?c ?t)"
      using coverage_of_spec[of j cm hs v w] a by simp
    then show c: "coverage r = coverage_pct v ?c ?t"
      using run_tests_cov[of w j v] a nn cov by simp
    show "\<exists>k. coverage r = double_of (of_int k / 100)
                \<and> \<bar>of_int k / 100 - spec_coverage hs\<bar> \<le> 1 / 200 + 1 / 10 ^ 13
                \<and> (length hs \<le> 2 ^ 32 \<longrightarrow> \<bar>of_int k / 100 - spec_coverage hs\<bar> \<le> 1 / 200)"
      unfolding c spec_coverage_def by (rule coverage_pct_rounded[OF le])
    show "\<bar>coverage r - spec_coverage hs\<bar> \<le> 1 / 200 + 2 / 10 ^ 13"
      unfolding c spec_coverage_def by (rule coverage_pct_near[OF le])
  }
  {
    assume d: "\<not> package_json w \<or> jest_report w = NoReport \<or> jest_report w = Unreadable
            \<or> (jest_report w = Report j \<and> \<not> truthy (get_prop j ''coverageMap''))
            \<or> (jest_report w = Report j \<and> get_prop j ''coverageMap'' = Some cm
                 \<and> spec_counters cm = Some [])"
    then consider
        (dflt) "\<not> package_json w \<or> jest_report w = NoReport \<or> jest_report w = Unreadable"
      | (nomap) "jest_report w = Report j" "\<not> truthy (get_prop j ''coverageMap'')"
      | (empty) "jest_report w = Report j" "get_prop j ''coverageMap'' = Some cm"
          "spec_counters cm = Some []"
      by blast
    then show "coverage r = 0"
    proof cases
      case dflt
      then show ?thesis using run_tests_default[of w v] cov by simp
    next
      case nomap
      then show ?thesis using run_tests_zero[OF nomap(1) coverage_of_falsy[OF nomap(2)]] cov by simp
    next
      case empty
      have "coverage_of v w j = Inr 0" using coverage_of_spec[OF empty(2,3), of v w] by simp
      then show ?thesis using run_tests_zero[OF empty(1)] cov by simp
    qed
  }
qed

theorem coverage_field_witness:
  "\<exists>r r'. getCommitInfo SingleFile (root_world SingleFile ''Add notes'') root_sha = Some r
     \<and> package_json (root_world SingleFile ''Add notes'')
     \<and> jest_report (root_world SingleFile ''Add notes'') = Report good_report
     \<and> get_prop good_report ''coverageMap'' = Some good_map
     \<and> spec_counters good_map = Some [3, 0, 1, 7]
     \<and> length [3, 0, 1, 7 :: rat] \<le> 2 ^ 32
     \<and> spec_coverage [3, 0, 1, 7] = 75
     \<and> coverage r = 75
     \<and> \<bar>coverage r - spec_coverage [3, 0, 1, 7]\<bar> \<le> 1 / 200 + 2 / 10 ^ 13
     \<and> getCommitInfo SingleFile ((root_world SingleFile ''Add notes'')\<lparr>package_json := False\<rparr>)
          root_sha = Some r'
     \<and> coverage r' = 0"
proof -
  let ?w = "root_world SingleFile ''Add notes''"
  let ?w' = "?w\<lparr>package_json := False\<rparr>"
  obtain r where r: "getCommitInfo SingleFile ?w root_sha = Some r"
    unfolding root_world_def using demo_info by blast
  obtain r' where r': "getCommitInfo SingleFile ?w' root_sha = Some r'"
    by (rule exE[OF getCommitInfo_Some[of ?w' root_sha _ _ _ SingleFile]])
       (simp_all add: root_world_def demo_world_def demo_sh_def)
  have p: "package_json ?w" "jest_report ?w = Report good_report"
    by (simp_all add: root_world_def demo_world_def)
  have h: "package_json ?w \<and> jest_report ?w = Report good_report
           \<and> get_prop good_report ''coverageMap'' = Some good_map
           \<and> spec_counters good_map = Some [3, 0, 1, 7] \<and> [3, 0, 1, 7] \<noteq> ([] :: rat list)"
    using p by (simp add: good_report_props good_counters)
  have h': "\<not> package_json ?w'" by simp
  have l: "length [3, 0, 1, 7 :: rat] \<le> 2 ^ 32" by simp
  have s: "spec_coverage [3, 0, 1, 7] = 75" by (simp add: spec_coverage_def)
  from coverage_field[OF r, of good_report good_map "[3, 0, 1, 7]"] h
  have a: "coverage r = coverage_pct SingleFile (length (filter (\<lambda>h. 0 < h) [3, 0, 1, 7 :: rat]))
             (length [3, 0, 1, 7 :: rat])"
    and b: "\<bar>coverage r - spec_coverage [3, 0, 1, 7]\<bar> \<le> 1 / 200 + 2 / 10 ^ 13"
    by blast+
  have "length (filter (\<lambda>h. 0 < h) [3, 0, 1, 7 :: rat]) = 3" "length [3, 0, 1, 7 :: rat] = 4"
    by simp_all
  with a have c: "coverage r = 75" by (simp only: three_of_four)
  from coverage_field[OF r', of JNull JNull] h' have d: "coverage r' = 0" by blast
  from r r' p good_report_props(2) good_counters l s b c d show ?thesis by blast
qed

text \<open>The counters of the reports \<open>tie_report\<close>, as the specification reads them.\<close>

lemma enumerate_nums:
  "those (map (\<lambda>kv. case snd kv of JNum n \<Rightarrow> Some n | _ \<Rightarrow> None)
            (map (\<lambda>(i, h). (counter_key i, JNum h)) (enumerate n hs))) = Some hs"
  by (induction hs arbitrary: n) simp_all

lemma counters_nums:
  "those (map (\<lambda>kv. case snd kv of JNum n \<Rightarrow> Some n | _ \<Rightarrow> None) (counters hs)) = Some hs"
  unfolding counters_def by (rule enumerate_nums)

lemma tie_counters: "spec_counters (tie_map hit miss) = Some (tie_counts hit miss)"
  by (simp add: spec_counters_def spec_file_counters_def tie_map_def get_prop_def counters_nums)

lemma tie_lengths:
  "length (filter (\<lambda>h. 0 < h) (tie_counts hit miss)) = hit"
  "length (tie_counts hit miss) = hit + miss"
  by (simp_all add: tie_counts_def)

lemma tie_coverage:
  assumes "0 < hit + miss"
  shows "\<exists>r. getCommitInfo v (tie_world v hit miss) root_sha = Some r
           \<and> coverage r = coverage_pct v hit (hit + miss)"
proof -
  let ?w = "tie_world v hit miss"
  have sh_eq: "sh ?w = sh (demo_world v root_sha ''Add notes'' (Some ''feature/x-1''))"
    by (simp add: tie_world_def root_world_def)
  obtain r where r: "getCommitInfo v ?w root_sha = Some r"
    by (rule exE[OF getCommitInfo_Some[of ?w root_sha _ _ _ v]])
       (simp_all add: sh_eq demo_world_def demo_sh_def)
  have p: "package_json ?w" "jest_report ?w = Report (tie_report hit miss)"
    by (simp_all add: tie_world_def root_world_def demo_world_def)
  have g: "get_prop (tie_report hit miss) ''coverageMap'' = Some (tie_map hit miss)"
    by (simp add: tie_report_def get_prop_def)
  have nn: "tie_report hit miss \<noteq> JNull" by (simp add: tie_report_def)
  have ne: "tie_counts hit miss \<noteq> []" using assms tie_lengths(2)[of hit miss] by auto
  have "coverage_of v ?w (tie_report hit miss) = Inr (coverage_pct v hit (hit + miss))"
    using coverage_of_spec[OF g tie_counters, of v ?w] ne by (simp add: tie_lengths)
  from run_tests_cov[OF p nn this] getCommitInfo_tests[OF r]
  have "coverage r = coverage_pct v hit (hit + miss)" by simp
  with r show ?thesis by blast
qed

lemma tie_values:
  "coverage_pct SingleFile 23 160 = double_of (1437 / 100)"
  "coverage_pct GlobalBranch 23 160 = double_of (1437 / 100)"
  "coverage_pct BranchMain 57 800 = double_of (712 / 100)"
  "double_of (1437 / 100) < 14375 / 1000"
  "double_of (712 / 100) < 7125 / 1000"
  "double_of (1437 / 100) < double_of (1438 / 100)"
  by code_simp+

text \<open>
  C7 as stated fails: with 23 of 160 counters executed the percentage is 14.375, which
  rounds to 14.38 (a tie going up, and to the even digit as well), and
  \<open>commit-tracker.js\<close> and the third script record 14.37: the double nearest to
  \<open>23 / 160\<close> lies below it, and so does the product. With 57 of 800 the percentage is
  7.125, \<open>Math.round\<close> of the exact \<open>712.5\<close> is 713, and the second script records 7.12.
\<close>

theorem tie_rounds_down:
  "(\<exists>r. getCommitInfo SingleFile (tie_world SingleFile 23 137) root_sha = Some r
       \<and> spec_counters (tie_map 23 137) = Some (tie_counts 23 137)
       \<and> spec_coverage (tie_counts 23 137) = 14375 / 1000
       \<and> math_round (spec_coverage (tie_counts 23 137) * 100) = 1438
       \<and> round_half_even (spec_coverage (tie_counts 23 137) * 100) = 1438
       \<and> coverage r = double_of (1437 / 100)
       \<and> coverage r < double_of (1438 / 100)
       \<and> coverage r < spec_coverage (tie_counts 23 137))
   \<and> (\<exists>r. getCommitInfo GlobalBranch (tie_world GlobalBranch 23 137) root_sha = Some r
       \<and> coverage r = double_of (1437 / 100))
   \<and> (\<exists>r. getCommitInfo BranchMain (tie_world BranchMain 57 743) root_sha = Some r
       \<and> spec_counters (tie_map 57 743) = Some (tie_counts 57 743)
       \<and> spec_coverage (tie_counts 57 743) = 7125 / 1000
       \<and> math_round (spec_coverage (tie_counts 57 743) * 100) = 713
       \<and> coverage r = double_of (712 / 100)
       \<and> coverage r < spec_coverage (tie_counts 57 743))"
proof -
  obtain r1 where r1: "getCommitInfo SingleFile (tie_world SingleFile 23 137) root_sha = Some r1"
    "coverage r1 = coverage_pct SingleFile 23 (23 + 137)"
    using tie_coverage[of 23 137 SingleFile] by auto
  obtain r3 where r3: "getCommitInfo GlobalBranch (tie_world GlobalBranch 23 137) root_sha = Some r3"
    "coverage r3 = coverage_pct GlobalBranch 23 (23 + 137)"
    using tie_coverage[of 23 137 GlobalBranch] by auto
  obtain r2 where r2: "getCommitInfo BranchMain (tie_world BranchMain 57 743) root_sha = Some r2"
    "coverage r2 = coverage_pct BranchMain 57 (57 + 743)"
    using tie_coverage[of 57 743 BranchMain] by auto
  have c1: "coverage r1 = double_of (1437 / 100)" using r1(2) by (simp add: tie_values)
  have c3: "coverage r3 = double_of (1437 / 100)" using r3(2) by (simp add: tie_values)
  have c2: "coverage r2 = double_of (712 / 100)" using r2(2) by (simp add: tie_values)
  have s1: "spec_coverage (tie_counts 23 137) = 14375 / 1000"
    by (simp add: spec_coverage_def tie_lengths)
  have s2: "spec_coverage (tie_counts 57 743) = 7125 / 1000"
    by (simp add: spec_coverage_def tie_lengths)
  have m1: "math_round (spec_coverage (tie_counts 23 137) * 100) = 1438"
    unfolding s1 by (simp add: math_round_def floor_eq_iff)
  have e1: "round_half_even (spec_coverage (tie_counts 23 137) * 100) = 1438"
    unfolding s1 by code_simp
  have m2: "math_round (spec_coverage (tie_counts 57 743) * 100) = 713"
    unfolding s2 by (simp add: math_round_def floor_eq_iff)
  have l1: "coverage r1 < spec_coverage (tie_counts 23 137)" unfolding c1 s1 by (rule tie_values)
  have l2: "coverage r2 < spec_coverage (tie_counts 57 743)" unfolding c2 s2 by (rule tie_values)
  have u1: "coverage r1 < double_of (1438 / 100)" unfolding c1 by (rule tie_values)
  from r1(1) tie_counters s1 m1 e1 c1 u1 l1 r3(1) c3 r2(1) s2 m2 c2 l2 show ?thesis by blast
qed

section \<open>The URL of the record\<close>

lemma endsWith_append: "endsWith (a @ b) b"
  by (simp add: endsWith_def)

lemma endsWith_split: "endsWith u t \<Longrightarrow> \<exists>p. u = p @ t"
  unfolding endsWith_def by (metis append_take_drop_id)

lemma H_not_hex: "\<not> is_hex_ci (CHR ''H'')"
  by (simp add: is_hex_ci_def)

lemma sha_not_ends_head:
  assumes "valid_sha s"
  shows "\<not> endsWith (x @ ''/commit/'' @ s) ''/commit/HEAD''"
proof
  assume "endsWith (x @ ''/commit/'' @ s) ''/commit/HEAD''"
  then obtain p where p: "x @ ''/commit/'' @ s = p @ ''/commit/HEAD''"
    using endsWith_split by blast
  have len: "4 \<le> length s" using assms by (simp add: valid_sha_def)
  have "rev s @ rev (x @ ''/commit/'') = rev (p @ ''/commit/HEAD'')"
    using arg_cong[OF p, of rev] by simp
  then have "take 4 (rev s @ rev (x @ ''/commit/'')) = take 4 (rev (p @ ''/commit/HEAD''))"
    by simp
  then have "take 4 (rev s) = ''DAEH''" using len by simp
  then have "CHR ''H'' \<in> set (take 4 (rev s))" by simp
  then have "CHR ''H'' \<in> set s" using set_take_subset[of 4 "rev s"] by auto
  then have "is_hex_ci (CHR ''H'')" using assms by (auto simp: valid_sha_def list_all_iff)
  then show False by (simp add: H_not_hex)
qed

lemma valid_sha_not_HEAD: "valid_sha s \<Longrightarrow> s \<noteq> ''HEAD''"
  by (auto simp: valid_sha_def)

lemma getCommitInfo_sha: "getCommitInfo v w s = Some r \<Longrightarrow> sha r = s"
  by (auto simp: getCommitInfo_def Let_def split: option.splits prod.splits)

lemma getCommitInfo_url:
  "getCommitInfo v w s = Some r \<Longrightarrow>
   commit_url r = (if getRemoteHttpUrl w \<noteq> [] then getRemoteHttpUrl w @ ''/commit/'' @ s else [])"
  by (auto simp: getCommitInfo_def Let_def split: option.splits prod.splits)

lemma getCommitInfo_branch:
  "getCommitInfo v w s = Some r \<Longrightarrow>
   branch r = (case sh w ''git rev-parse --abbrev-ref HEAD'' of None \<Rightarrow> [] | Some b \<Rightarrow> b)"
  by (auto simp: getCommitInfo_def Let_def split: option.splits prod.splits)

lemma built_head_checks:
  assumes "valid_sha s" "getCommitInfo v w s = Some r"
  shows "head_checks r = None"
  using assms(1) sha_not_ends_head[OF assms(1)] valid_sha_not_HEAD[OF assms(1)]
  by (simp add: head_checks_def getCommitInfo_sha[OF assms(2)] getCommitInfo_url[OF assms(2)]
      endsWith_append[of "getRemoteHttpUrl w @ ''/commit/''" s, simplified])

text \<open>
  C9: for a hash that passed the check of the scripts, the record's \<open>commit.url\<close> is empty or the
  remote URL followed by \<open>/commit/\<close> and the record's \<open>sha\<close>. The three checks on the
  hash and the URL then pass: \<open>validateEntry\<close> can only reject such a record for its
  branch.
\<close>

theorem url_ends_in_sha:
  assumes "valid_sha sha0" "getCommitInfo v w sha0 = Some r"
  shows "sha r = sha0
     \<and> (commit_url r = [] \<or> commit_url r = getRemoteHttpUrl w @ ''/commit/'' @ sha r)
     \<and> head_checks r = None
     \<and> validateEntry r \<noteq> Some ShaIsHead
     \<and> validateEntry r \<noteq> Some UrlEndsInHead
     \<and> validateEntry r \<noteq> Some UrlNotSha"
  using built_head_checks[OF assms] getCommitInfo_sha[OF assms(2)] getCommitInfo_url[OF assms(2)]
  by (auto simp: validateEntry_def)

lemma root_sha_valid: "valid_sha root_sha"
  by (simp add: valid_sha_def root_sha_def is_hex_ci_def)

lemma demo_branch: "sh (demo_world v s m b) ''git rev-parse --abbrev-ref HEAD'' = b"
  by (simp add: demo_world_def demo_sh_def show_command_def)

lemma demo_head: "sh (demo_world v s m b) ''git rev-parse HEAD'' = Some s"
  by (simp add: demo_world_def demo_sh_def)

lemma demo_remote:
  "getRemoteHttpUrl (demo_world v s m b) = ''https://github.com/Oswi142/proyecto-base''"
  by (simp add: getRemoteHttpUrl_def demo_world_def demo_sh_def strip_dot_git_def endsWith_def
      startsWith_def git_ssh_match_def Let_def)

theorem url_ends_in_sha_witness:
  "valid_sha root_sha
   \<and> (\<exists>r. getCommitInfo BranchMain (root_world BranchMain ''Add notes'') root_sha = Some r
        \<and> commit_url r = ''https://github.com/Oswi142/proyecto-base/commit/'' @ root_sha
        \<and> sha r = root_sha \<and> head_checks r = None \<and> validateEntry r = None)"
proof -
  let ?w = "root_world BranchMain ''Add notes''"
  obtain r where r: "getCommitInfo BranchMain ?w root_sha = Some r"
    unfolding root_world_def using demo_info by blast
  note t = url_ends_in_sha[OF root_sha_valid r]
  have u: "commit_url r = ''https://github.com/Oswi142/proyecto-base/commit/'' @ root_sha"
    using getCommitInfo_url[OF r] by (simp add: root_world_def demo_remote)
  have b: "branch r = ''feature/x-1''"
    using getCommitInfo_branch[OF r] by (simp add: root_world_def demo_branch)
  have "validateEntry r = None" using t b by (simp add: validateEntry_def)
  with t u r root_sha_valid show ?thesis by blast
qed

section \<open>The sort and the appended history\<close>

text \<open>The sort rearranges the array.\<close>

lemma extend_run_split:
  "extend_run cmp desc prev xs = Inr (rn, others) \<Longrightarrow> rn @ others = xs"
  by (induction xs arbitrary: prev rn others) (auto split: sum.splits if_splits)

lemma CountAndMakeRun_mset:
  assumes "CountAndMakeRun cmp xs = Inr (rn, others)"
  shows "mset rn + mset others = mset xs"
proof (cases xs)
  case Nil
  with assms show ?thesis by (simp add: CountAndMakeRun_def)
next
  case (Cons a ys)
  show ?thesis
  proof (cases ys)
    case Nil
    with Cons assms show ?thesis by (simp add: CountAndMakeRun_def)
  next
    case (Cons b rest)
    from assms obtain d r where
      e: "extend_run cmp (order_of d < 0) b rest = Inr (r, others)"
      and rn: "rn = (if order_of d < 0 then rev (a # b # r) else a # b # r)"
      unfolding \<open>xs = a # ys\<close> Cons
      by (auto simp: CountAndMakeRun_def Let_def split: sum.splits)
    from extend_run_split[OF e] have "r @ others = rest" .
    then have "mset r + mset others = mset rest" by (metis mset_append)
    then show ?thesis unfolding \<open>xs = a # ys\<close> Cons rn by simp
  qed
qed

lemma find_slot_done: "\<not> left < right \<Longrightarrow> find_slot cmp pivot work left right = Inr left"
  by (simp add: find_slot.simps[of cmp pivot work left right])

lemma find_slot_step:
  "left < right \<Longrightarrow> cmp pivot (work ! (left + (right - left) div 2)) = Inr d \<Longrightarrow>
   find_slot cmp pivot work left right =
     (if order_of d < 0 then find_slot cmp pivot work left (left + (right - left) div 2)
      else find_slot cmp pivot work (left + (right - left) div 2 + 1) right)"
  by (simp add: find_slot.simps[of cmp pivot work left right] Let_def)

lemma find_slot_error:
  "left < right \<Longrightarrow> cmp pivot (work ! (left + (right - left) div 2)) = Inl e \<Longrightarrow>
   find_slot cmp pivot work left right = Inl e"
  by (simp add: find_slot.simps[of cmp pivot work left right] Let_def)

lemma find_slot_range:
  "find_slot cmp pivot work left right = Inr pos \<Longrightarrow> left \<le> right \<Longrightarrow> left \<le> pos \<and> pos \<le> right"
proof (induction cmp pivot work left right rule: find_slot.induct)
  case (1 cmp pivot work left right)
  let ?mid = "left + (right - left) div 2"
  show ?case
  proof (cases "left < right")
    case False
    with "1.prems" show ?thesis by (simp add: find_slot_done)
  next
    case True
    have m: "left \<le> ?mid" "?mid < right" using True by simp_all
    show ?thesis
    proof (cases "cmp pivot (work ! ?mid)")
      case (Inl e)
      from find_slot_error[where cmp = cmp and pivot = pivot, OF True Inl] "1.prems"(1) show ?thesis by simp
    next
      case (Inr d)
      note st = find_slot_step[where cmp = cmp and pivot = pivot, OF True Inr]
      show ?thesis
      proof (cases "order_of d < 0")
        case neg: True
        with st "1.prems"(1) have "find_slot cmp pivot work left ?mid = Inr pos" by simp
        from "1.IH"(1)[OF True refl Inr neg this m(1)] m show ?thesis by simp
      next
        case nonneg: False
        with st "1.prems"(1) have "find_slot cmp pivot work (?mid + 1) right = Inr pos" by simp
        from "1.IH"(2)[OF True refl Inr nonneg this] m show ?thesis by simp
      qed
    qed
  qed
qed

lemma BinaryInsertionSort_mset:
  "BinaryInsertionSort cmp placed xs = Inr zs \<Longrightarrow> mset zs = mset placed + mset xs"
proof (induction xs arbitrary: placed)
  case Nil
  then show ?case by simp
next
  case (Cons x xs)
  from Cons.prems obtain pos where
    p: "find_slot cmp x placed 0 (length placed) = Inr pos"
    and r: "BinaryInsertionSort cmp (take pos placed @ x # drop pos placed) xs = Inr zs"
    by (auto split: sum.splits)
  have "mset (take pos placed) + mset (drop pos placed) = mset placed"
    by (metis append_take_drop_id mset_append)
  then have "mset (take pos placed @ x # drop pos placed) = add_mset x (mset placed)"
    by simp
  with Cons.IH[OF r] show ?case by simp
qed

lemma ArrayTimSort_mset: "ArrayTimSort cmp xs = Inr zs \<Longrightarrow> mset zs = mset xs"
  using CountAndMakeRun_mset[of cmp xs] BinaryInsertionSort_mset[of cmp _ _ zs]
  by (auto simp: ArrayTimSort_def split: if_splits sum.splits prod.splits)

lemma ArrayTimSort_single: "ArrayTimSort cmp [x] = Inr [x]"
  by (simp add: ArrayTimSort_def)

lemma ArrayTimSort_Nil: "ArrayTimSort cmp [] = Inr []"
  by (simp add: ArrayTimSort_def)


text \<open>A comparator that never throws on the elements lets the sort return.\<close>

lemma extend_run_total:
  assumes "\<forall>a\<in>A. \<forall>b\<in>A. \<exists>d. cmp a b = Inr d"
  shows "set (prev # xs) \<subseteq> A \<Longrightarrow> \<exists>rn others. extend_run cmp desc prev xs = Inr (rn, others)"
proof (induction xs arbitrary: prev)
  case Nil
  then show ?case by simp
next
  case (Cons x xs)
  have "x \<in> A" "prev \<in> A" using Cons.prems by simp_all
  with assms obtain d where d: "cmp x prev = Inr d" by blast
  have "set (x # xs) \<subseteq> A" using Cons.prems by simp
  from Cons.IH[OF this] obtain rn others where "extend_run cmp desc x xs = Inr (rn, others)"
    by blast
  then show ?case using d by simp
qed

lemma CountAndMakeRun_total:
  assumes "\<forall>a\<in>A. \<forall>b\<in>A. \<exists>d. cmp a b = Inr d" "set xs \<subseteq> A"
  shows "\<exists>rn others. CountAndMakeRun cmp xs = Inr (rn, others)"
proof (cases xs)
  case Nil
  then show ?thesis by (simp add: CountAndMakeRun_def)
next
  case (Cons a ys)
  show ?thesis
  proof (cases ys)
    case Nil
    with Cons show ?thesis by (simp add: CountAndMakeRun_def)
  next
    case (Cons b rest)
    have "b \<in> A" "a \<in> A" using assms(2) unfolding \<open>xs = a # ys\<close> Cons by simp_all
    with assms(1) obtain d where d: "cmp b a = Inr d" by blast
    have "set (b # rest) \<subseteq> A" using assms(2) unfolding \<open>xs = a # ys\<close> Cons by simp
    from extend_run_total[OF assms(1) this, of "order_of d < 0"] obtain rn others where
      "extend_run cmp (order_of d < 0) b rest = Inr (rn, others)" by blast
    then show ?thesis unfolding \<open>xs = a # ys\<close> Cons using d
      by (simp add: CountAndMakeRun_def Let_def)
  qed
qed

lemma find_slot_total:
  assumes "\<forall>a\<in>A. \<forall>b\<in>A. \<exists>d. cmp a b = Inr d" "pivot \<in> A" "set work \<subseteq> A"
  shows "right \<le> length work \<Longrightarrow> \<exists>pos. find_slot cmp pivot work left right = Inr pos"
proof (induction "right - left" arbitrary: left right rule: less_induct)
  case less
  let ?mid = "left + (right - left) div 2"
  show ?case
  proof (cases "left < right")
    case False
    then show ?thesis by (simp add: find_slot_done)
  next
    case True
    have m: "left \<le> ?mid" "?mid < right" using True by simp_all
    have "work ! ?mid \<in> A" using assms(3) m(2) less.prems by (meson nth_mem order_less_le_trans subsetD)
    with assms(1,2) obtain d where d: "cmp pivot (work ! ?mid) = Inr d" by blast
    note st = find_slot_step[where cmp = cmp and pivot = pivot, OF True d]
    show ?thesis
    proof (cases "order_of d < 0")
      case neg: True
      have "?mid - left < right - left" using True by linarith
      moreover have "?mid \<le> length work" using m(2) less.prems by simp
      ultimately obtain pos where "find_slot cmp pivot work left ?mid = Inr pos"
        using less.hyps by blast
      then show ?thesis using st neg by simp
    next
      case nonneg: False
      have "right - (?mid + 1) < right - left" using True by linarith
      then obtain pos where "find_slot cmp pivot work (?mid + 1) right = Inr pos"
        using less.hyps less.prems by blast
      then show ?thesis using st nonneg by simp
    qed
  qed
qed

lemma BinaryInsertionSort_total:
  assumes "\<forall>a\<in>A. \<forall>b\<in>A. \<exists>d. cmp a b = Inr d"
  shows "set placed \<union> set xs \<subseteq> A \<Longrightarrow> \<exists>zs. BinaryInsertionSort cmp placed xs = Inr zs"
proof (induction xs arbitrary: placed)
  case Nil
  then show ?case by simp
next
  case (Cons x xs)
  have x: "x \<in> A" and p: "set placed \<subseteq> A" using Cons.prems by simp_all
  from find_slot_total[OF assms x p order_refl, of 0] obtain pos where
    pos: "find_slot cmp x placed 0 (length placed) = Inr pos" by blast
  have "set (take pos placed @ x # drop pos placed) \<subseteq> A"
    using x p set_take_subset[of pos placed] set_drop_subset[of pos placed] by auto
  then have "set (take pos placed @ x # drop pos placed) \<union> set xs \<subseteq> A" using Cons.prems by simp
  from Cons.IH[OF this] show ?case using pos by simp
qed

lemma ArrayTimSort_total:
  assumes "\<forall>a\<in>set xs. \<forall>b\<in>set xs. \<exists>d. cmp a b = Inr d"
  shows "\<exists>zs. ArrayTimSort cmp xs = Inr zs"
proof (cases "length xs < 2")
  case True
  then show ?thesis by (simp add: ArrayTimSort_def)
next
  case False
  from CountAndMakeRun_total[OF assms order_refl] obtain rn others where
    c: "CountAndMakeRun cmp xs = Inr (rn, others)" by blast
  have "set_mset (mset rn + mset others) = set_mset (mset xs)"
    using CountAndMakeRun_mset[OF c] by simp
  then have "set rn \<union> set others \<subseteq> set xs" by simp
  from BinaryInsertionSort_total[OF assms this] show ?thesis
    using False c by (simp add: ArrayTimSort_def)
qed

text \<open>
  With a comparator that is the difference of a key, the head rn is sorted by the key
  and the binary search finds a slot that keeps the placed elements sorted.
\<close>

lemma extend_run_sorted:
  assumes "\<forall>a\<in>A. \<forall>b\<in>A. cmp a b = Inr (Some (k a - k b))"
  shows "set (prev # xs) \<subseteq> A \<Longrightarrow> extend_run cmp desc prev xs = Inr (rn, others) \<Longrightarrow>
         sorted (map (\<lambda>a. if desc then - k a else k a) (prev # rn))"
proof (induction xs arbitrary: prev rn)
  case Nil
  then show ?case by simp
next
  case (Cons x xs)
  have d: "cmp x prev = Inr (Some (k x - k prev))" using Cons.prems(1) assms by simp
  show ?case
  proof (cases "if desc then 0 \<le> k x - k prev else k x - k prev < 0")
    case True
    with Cons.prems(2) d have "rn = []" by (auto simp: order_of_def split: if_splits)
    then show ?thesis by simp
  next
    case False
    with Cons.prems(2) d obtain r where
      r: "extend_run cmp desc x xs = Inr (r, others)" and rn: "rn = x # r"
      by (auto simp: order_of_def split: sum.splits if_splits)
    have sub: "set (x # xs) \<subseteq> A" using Cons.prems(1) by simp
    define g where "g = (\<lambda>a. if desc then - k a else k a)"
    from Cons.IH[OF sub r] have "sorted (map g (x # r))" by (simp only: g_def)
    moreover have "g prev \<le> g x" using False by (auto simp: g_def split: if_splits)
    moreover have "sorted (map g (prev # x # r)) = (g prev \<le> g x \<and> sorted (map g (x # r)))"
      by (simp only: list.map sorted2)
    ultimately have "sorted (map g (prev # x # r))" by blast
    then show ?thesis unfolding rn by (simp only: g_def)
  qed
qed

lemma sorted_neg_rev: "sorted (map (\<lambda>a. - k a) xs) \<Longrightarrow> sorted (map k (rev xs))"
  for k :: "'a \<Rightarrow> int"
  by (induction xs) (auto simp: sorted_append)

lemma CountAndMakeRun_sorted:
  assumes "\<forall>a\<in>A. \<forall>b\<in>A. cmp a b = Inr (Some (k a - k b))" "set xs \<subseteq> A"
    "CountAndMakeRun cmp xs = Inr (rn, others)"
  shows "sorted (map k rn)"
proof (cases xs)
  case Nil
  with assms(3) show ?thesis by (simp add: CountAndMakeRun_def)
next
  case (Cons a ys)
  show ?thesis
  proof (cases ys)
    case Nil
    with Cons assms(3) show ?thesis by (auto simp: CountAndMakeRun_def)
  next
    case (Cons b rest)
    note xs = \<open>xs = a # ys\<close> Cons
    have d: "cmp b a = Inr (Some (k b - k a))" using assms(1,2) unfolding xs by simp
    let ?desc = "k b - k a < 0"
    from assms(3) d obtain r where
      e: "extend_run cmp ?desc b rest = Inr (r, others)"
      and rn: "rn = (if ?desc then rev (a # b # r) else a # b # r)"
      unfolding xs by (auto simp: CountAndMakeRun_def Let_def order_of_def split: sum.splits)
    have "set (b # rest) \<subseteq> A" using assms(2) unfolding xs by simp
    from extend_run_sorted[OF assms(1) this e]
    have s: "sorted (map (\<lambda>a. if ?desc then - k a else k a) (b # r))" .
    show ?thesis
    proof (cases ?desc)
      case True
      define g where "g = (\<lambda>a. - k a)"
      from s True have "sorted (map g (b # r))" by (simp add: g_def)
      moreover have "g a \<le> g b" using True by (simp add: g_def)
      moreover have "sorted (map g (a # b # r)) = (g a \<le> g b \<and> sorted (map g (b # r)))"
        by (simp only: list.map sorted2)
      ultimately have "sorted (map (\<lambda>a. - k a) (a # b # r))" unfolding g_def by blast
      from sorted_neg_rev[OF this] show ?thesis using True rn by simp
    next
      case False
      from s False have "sorted (map k (b # r))" by simp
      moreover have "k a \<le> k b" using False by simp
      moreover have "sorted (map k (a # b # r)) = (k a \<le> k b \<and> sorted (map k (b # r)))"
        by (simp only: list.map sorted2)
      ultimately have "sorted (map k (a # b # r))" by blast
      then show ?thesis using False rn by simp
    qed
  qed
qed

lemma find_slot_sorted:
  assumes "\<forall>a\<in>A. \<forall>b\<in>A. cmp a b = Inr (Some (k a - k b))" "pivot \<in> A" "set work \<subseteq> A"
    "sorted (map k work)"
  shows "find_slot cmp pivot work left right = Inr pos \<Longrightarrow> left \<le> right \<Longrightarrow> right \<le> length work \<Longrightarrow>
         (\<forall>i<left. k (work ! i) \<le> k pivot) \<Longrightarrow>
         (\<forall>i. right \<le> i \<and> i < length work \<longrightarrow> k pivot < k (work ! i)) \<Longrightarrow>
         (\<forall>i<pos. k (work ! i) \<le> k pivot)
         \<and> (\<forall>i. pos \<le> i \<and> i < length work \<longrightarrow> k pivot < k (work ! i))"
proof (induction "right - left" arbitrary: left right rule: less_induct)
  case less
  let ?mid = "left + (right - left) div 2"
  show ?case
  proof (cases "left < right")
    case False
    with less.prems(1,2) have "pos = left" "left = right" by (simp_all add: find_slot_done)
    with less.prems(4,5) show ?thesis by simp
  next
    case True
    have m: "left \<le> ?mid" "?mid < right" using True by simp_all
    have ml: "?mid < length work" using m(2) less.prems(3) by simp
    have "work ! ?mid \<in> A" using assms(3) ml by (meson nth_mem subsetD)
    with assms(1,2) have d: "cmp pivot (work ! ?mid) = Inr (Some (k pivot - k (work ! ?mid)))"
      by blast
    note st = find_slot_step[where cmp = cmp and pivot = pivot, OF True d]
    have mono: "k (work ! i) \<le> k (work ! j)" if "i \<le> j" "j < length work" for i j
      using assms(4) that by (simp add: sorted_iff_nth_mono)
    show ?thesis
    proof (cases "k pivot < k (work ! ?mid)")
      case neg: True
      then have o: "order_of (Some (k pivot - k (work ! ?mid))) < 0" by (simp add: order_of_def)
      with st less.prems(1) have f: "find_slot cmp pivot work left ?mid = Inr pos" by simp
      have hi: "\<forall>i. ?mid \<le> i \<and> i < length work \<longrightarrow> k pivot < k (work ! i)"
        using neg mono by (meson order_less_le_trans)
      have sm: "?mid - left < right - left" using True by linarith
      have le: "?mid \<le> length work" using ml by simp
      from less.hyps[OF sm f m(1) le less.prems(4) hi] show ?thesis .
    next
      case nonneg: False
      then have o: "\<not> order_of (Some (k pivot - k (work ! ?mid))) < 0" by (simp add: order_of_def)
      with st less.prems(1) have f: "find_slot cmp pivot work (?mid + 1) right = Inr pos" by simp
      have lo: "\<forall>i<?mid + 1. k (work ! i) \<le> k pivot"
      proof (intro allI impI)
        fix i assume "i < ?mid + 1"
        then have "i \<le> ?mid" by simp
        from mono[OF this ml] nonneg show "k (work ! i) \<le> k pivot" by simp
      qed
      have sm: "right - (?mid + 1) < right - left" using True by linarith
      have le: "?mid + 1 \<le> right" using m(2) by simp
      from less.hyps[OF sm f le less.prems(3) lo less.prems(5)] show ?thesis .
    qed
  qed
qed

lemma insert_at_sorted:
  fixes k :: "'a \<Rightarrow> int"
  assumes "sorted (map k work)" "pos \<le> length work"
    "\<forall>i<pos. k (work ! i) \<le> k pivot"
    "\<forall>i. pos \<le> i \<and> i < length work \<longrightarrow> k pivot < k (work ! i)"
  shows "sorted (map k (take pos work @ pivot # drop pos work))"
proof -
  have t: "sorted (map k (take pos work))" using assms(1) by (simp add: sorted_map)
  have d: "sorted (map k (drop pos work))" using assms(1) by (simp add: sorted_map)
  have a: "\<forall>x\<in>set (take pos work). k x \<le> k pivot"
    using assms(2,3) by (auto simp: in_set_conv_nth)
  have b: "\<forall>y\<in>set (drop pos work). k pivot \<le> k y"
  proof
    fix y assume "y \<in> set (drop pos work)"
    then obtain j where "j < length (drop pos work)" "y = drop pos work ! j"
      by (auto simp: in_set_conv_nth)
    then have "y = work ! (pos + j)" "pos + j < length work" using assms(2) by simp_all
    with assms(4) show "k pivot \<le> k y" by (simp add: less_imp_le)
  qed
  have c: "\<forall>x\<in>set (take pos work). \<forall>y\<in>set (drop pos work). k x \<le> k y"
    using a b by (meson order_trans)
  show ?thesis using t d a b c by (auto simp: sorted_append)
qed

lemma BinaryInsertionSort_sorted:
  assumes "\<forall>a\<in>A. \<forall>b\<in>A. cmp a b = Inr (Some (k a - k b))"
  shows "set placed \<union> set xs \<subseteq> A \<Longrightarrow> sorted (map k placed) \<Longrightarrow>
         BinaryInsertionSort cmp placed xs = Inr zs \<Longrightarrow> sorted (map k zs)"
proof (induction xs arbitrary: placed)
  case Nil
  then show ?case by simp
next
  case (Cons x xs)
  have x: "x \<in> A" and p: "set placed \<subseteq> A" using Cons.prems(1) by simp_all
  from Cons.prems(3) obtain pos where
    pos: "find_slot cmp x placed 0 (length placed) = Inr pos"
    and r: "BinaryInsertionSort cmp (take pos placed @ x # drop pos placed) xs = Inr zs"
    by (auto split: sum.splits)
  have rng: "pos \<le> length placed" using find_slot_range[OF pos] by simp
  from find_slot_sorted[OF assms x p Cons.prems(2) pos]
  have inv: "(\<forall>i<pos. k (placed ! i) \<le> k x)
         \<and> (\<forall>i. pos \<le> i \<and> i < length placed \<longrightarrow> k x < k (placed ! i))" by simp
  have s: "sorted (map k (take pos placed @ x # drop pos placed))"
    using insert_at_sorted[OF Cons.prems(2) rng] inv by blast
  have "set (take pos placed @ x # drop pos placed) \<subseteq> A"
    using x p set_take_subset[of pos placed] set_drop_subset[of pos placed] by auto
  then have "set (take pos placed @ x # drop pos placed) \<union> set xs \<subseteq> A" using Cons.prems(1) by simp
  from Cons.IH[OF this s r] show ?case .
qed

lemma ArrayTimSort_sorted:
  assumes "\<forall>a\<in>set xs. \<forall>b\<in>set xs. cmp a b = Inr (Some (k a - k b))"
    "ArrayTimSort cmp xs = Inr zs"
  shows "sorted (map k zs)"
proof (cases "length xs < 2")
  case True
  then have "xs = [] \<or> (\<exists>x. xs = [x])" by (cases xs; cases "tl xs") auto
  with True assms(2) show ?thesis by (auto simp: ArrayTimSort_def)
next
  case False
  with assms(2) obtain rn others where
    c: "CountAndMakeRun cmp xs = Inr (rn, others)"
    and b: "BinaryInsertionSort cmp rn others = Inr zs"
    by (auto simp: ArrayTimSort_def split: sum.splits)
  have "set_mset (mset rn + mset others) = set_mset (mset xs)"
    using CountAndMakeRun_mset[OF c] by simp
  then have sub: "set rn \<union> set others \<subseteq> set xs" by simp
  have s: "sorted (map k rn)" by (rule CountAndMakeRun_sorted[OF assms(1) order_refl c])
  from BinaryInsertionSort_sorted[OF assms(1) sub s b] show ?thesis .
qed

lemma date_cmp_parsed:
  "date_parses w a \<Longrightarrow> date_parses w b \<Longrightarrow>
   date_cmp w a b = Inr (Some (the_date w a - the_date w b))"
  by (auto simp: date_parses_def date_cmp_def the_date_def split: sum.splits option.splits)

lemma date_cmp_readable:
  "readable w a \<Longrightarrow> readable w b \<Longrightarrow> \<exists>d. date_cmp w a b = Inr d"
  by (auto simp: readable_def date_cmp_def split: sum.splits)

lemma date_parses_readable: "date_parses w x \<Longrightarrow> readable w x"
  by (auto simp: date_parses_def readable_def split: sum.splits)

lemma array_sort_mset: "array_sort w xs = Inr zs \<Longrightarrow> mset zs = mset xs"
  using ArrayTimSort_mset[of "date_cmp w" xs zs]
  by (auto simp: array_sort_def split: if_splits)

lemma array_sort_single: "array_sort w [x] = Inr [x]"
  by (simp add: array_sort_def ArrayTimSort_single)

lemma array_sort_readable:
  assumes "\<forall>x\<in>set xs. readable w x"
  shows "\<exists>zs. array_sort w xs = Inr zs \<and> mset zs = mset xs"
proof -
  have "\<forall>a\<in>set xs. \<forall>b\<in>set xs. \<exists>d. date_cmp w a b = Inr d"
    using assms by (simp add: date_cmp_readable)
  from ArrayTimSort_total[OF this] obtain ys where y: "ArrayTimSort (date_cmp w) xs = Inr ys"
    by blast
  have r: "list_all (readable w) xs" using assms by (simp add: list_all_iff)
  have "\<exists>zs. array_sort w xs = Inr zs"
  proof (cases "length xs < 64 \<or> dates_ok w xs")
    case True
    then show ?thesis using y by (simp add: array_sort_def)
  next
    case False
    then show ?thesis using r by (simp add: array_sort_def)
  qed
  then obtain zs where z: "array_sort w xs = Inr zs" by blast
  with array_sort_mset[OF z] show ?thesis by blast
qed

lemma array_sort_dates:
  assumes "dates_ok w xs"
  shows "\<exists>zs. array_sort w xs = Inr zs \<and> date_sorted w zs \<and> mset zs = mset xs"
proof -
  have p: "\<forall>a\<in>set xs. \<forall>b\<in>set xs. date_cmp w a b = Inr (Some (the_date w a - the_date w b))"
    using assms by (auto simp: dates_ok_def list_all_iff date_cmp_parsed)
  have "\<forall>x\<in>set xs. readable w x"
    using assms by (auto simp: dates_ok_def list_all_iff date_parses_readable)
  from array_sort_readable[OF this] obtain zs where
    z: "array_sort w xs = Inr zs" and m: "mset zs = mset xs" by blast
  have "ArrayTimSort (date_cmp w) xs = Inr zs" using z assms by (simp add: array_sort_def)
  from ArrayTimSort_sorted[OF p this] have s: "sorted (map (the_date w) zs)" .
  have "set zs = set xs" using m by (metis set_mset_mset)
  then have ok: "\<forall>z\<in>set zs. date_parses w z" using assms by (simp add: dates_ok_def list_all_iff)
  have "sorted_wrt (\<lambda>a b. the_date w a \<le> the_date w b) zs"
    using s by (simp add: sorted_map)
  then have "sorted_wrt (date_le w) zs"
    by (rule sorted_wrt_mono_rel[rotated]) (simp add: date_le_def ok)
  then show ?thesis using z m by (auto simp: date_sorted_def)
qed

lemma loadHistory_upd:
  "loadHistory (fs(p \<mapsto> Doc (JArr ys))) q = (if q = p then ys else loadHistory fs q)"
  by (simp add: loadHistory_def)

lemma loadHistory_absent: "fs p = None \<Longrightarrow> loadHistory fs p = []"
  by (simp add: loadHistory_def)

lemma appendEntry_empty:
  "loadHistory fs p = [] \<Longrightarrow> appendEntry w fs p x = writeFileSync w fs p (Doc (JArr [x]))"
  by (simp add: appendEntry_def saveHistory_def array_sort_single)

text \<open>What one append can do to the files.\<close>

lemma appendEntry_cases:
  assumes "appendEntry w fs p x = (err, fs')"
  shows "(err \<noteq> None \<and> fs' = fs)
       \<or> (\<exists>ys. err = None \<and> fs' = fs(p \<mapsto> Doc (JArr ys)) \<and> writable w p
             \<and> array_sort w (loadHistory fs p @ [x]) = Inr ys)"
  using assms
  by (auto simp: appendEntry_def saveHistory_def writeFileSync_def split: sum.splits if_splits)

lemma ensure_file_cases:
  assumes "ensure_file w fs p = (err, fs')"
  shows "(fs' = fs) \<or> (err = None \<and> fs p = None \<and> fs' = fs(p \<mapsto> Doc (JArr [])))"
  using assms by (auto simp: ensure_file_def writeFileSync_def split: if_splits)

lemma ensure_file_load:
  assumes "ensure_file w fs p = (err, fs')"
  shows "loadHistory fs' q = loadHistory fs q"
  using ensure_file_cases[OF assms] by (auto simp: loadHistory_upd loadHistory_absent)

lemma step_refl: "step P x fs fs"
  by (auto simp: step_def)

lemma step_trans:
  assumes "step P x fs fs1" "step P x fs1 fs2"
  shows "step P x fs fs2"
  unfolding step_def
proof (intro allI conjI)
  fix p
  from assms have a: "fs1 p = fs p \<or> (\<exists>ys. fs1 p = Some (Doc (JArr ys)) \<and> P ys)"
    and b: "fs2 p = fs1 p \<or> (\<exists>ys. fs2 p = Some (Doc (JArr ys)) \<and> P ys)"
    and c: "set (loadHistory fs1 p) \<subseteq> insert x (set (loadHistory fs p))"
    and d: "set (loadHistory fs2 p) \<subseteq> insert x (set (loadHistory fs1 p))"
    by (simp_all add: step_def)
  from a b show "fs2 p = fs p \<or> (\<exists>ys. fs2 p = Some (Doc (JArr ys)) \<and> P ys)" by auto
  from c d show "set (loadHistory fs2 p) \<subseteq> insert x (set (loadHistory fs p))" by blast
qed

lemma ensure_file_step:
  assumes "ensure_file w fs p = (err, fs')" "P []"
  shows "step P x fs fs'"
  using ensure_file_cases[OF assms(1)] ensure_file_load[OF assms(1)] assms(2)
  by (auto simp: step_def)

lemma appendEntry_step:
  assumes "appendEntry w fs p x = (err, fs')"
    and "\<And>ys. array_sort w (loadHistory fs p @ [x]) = Inr ys \<Longrightarrow> P ys"
  shows "step P x fs fs'"
proof -
  from appendEntry_cases[OF assms(1)] consider
      "fs' = fs"
    | ys where "fs' = fs(p \<mapsto> Doc (JArr ys))"
        "array_sort w (loadHistory fs p @ [x]) = Inr ys"
    by blast
  then show ?thesis
  proof cases
    case 1
    then show ?thesis by (simp add: step_refl)
  next
    case 2
    have m: "mset ys = mset (loadHistory fs p @ [x])" by (rule array_sort_mset[OF 2(2)])
    have "set ys = insert x (set (loadHistory fs p))"
      using arg_cong[OF m, of set_mset] by simp
    then show ?thesis using assms(2)[OF 2(2)] 2(1) by (auto simp: step_def loadHistory_upd)
  qed
qed

lemma persist_step:
  assumes run: "persist v w fs e = (err, fs')"
    and P0: "P []"
    and Q: "Q fs"
    and QP: "\<And>fs0 p ys. Q fs0 \<Longrightarrow> p \<in> set (history_files v e) \<Longrightarrow>
               array_sort w (loadHistory fs0 p @ [entry_json e]) = Inr ys \<Longrightarrow> P ys"
    and QS: "\<And>fs0 fs1. Q fs0 \<Longrightarrow> step P (entry_json e) fs0 fs1 \<Longrightarrow> Q fs1"
  shows "step P (entry_json e) fs fs'"
proof (cases v)
  case SingleFile
  let ?x = "entry_json e"
  have m: "DATA_FILE \<in> set (history_files v e)" by (simp add: SingleFile history_files_def)
  obtain e1 fs1 where s1: "appendEntry w fs DATA_FILE ?x = (e1, fs1)" by fastforce
  have t1: "step P ?x fs fs1" by (rule appendEntry_step[where P = P, OF s1 QP[OF Q m]])
  have "fs' = fs \<or> fs' = fs1"
    using run SingleFile s1 by (auto simp: persist_def saveCommitData_single_def split: option.splits)
  then show ?thesis using t1 by (auto simp: step_refl)
next
  case BranchMain
  let ?x = "entry_json e"
  have m: "BRANCH_FILE e \<in> set (history_files v e)" "MAIN_FILE \<in> set (history_files v e)"
    by (simp_all add: BranchMain history_files_def)
  obtain e1 fs1 where s1: "ensure_file w fs (BRANCH_FILE e) = (e1, fs1)" by fastforce
  have t1: "step P ?x fs fs1" by (rule ensure_file_step[where P = P, OF s1 P0])
  have d1: "Q fs1" by (rule QS[OF Q t1])
  obtain e2 fs2 where s2: "appendEntry w fs1 (BRANCH_FILE e) ?x = (e2, fs2)" by fastforce
  have t2: "step P ?x fs1 fs2" by (rule appendEntry_step[where P = P, OF s2 QP[OF d1 m(1)]])
  have d2: "Q fs2" by (rule QS[OF d1 t2])
  obtain e3 fs3 where s3: "ensure_file w fs2 MAIN_FILE = (e3, fs3)" by fastforce
  have t3: "step P ?x fs2 fs3" by (rule ensure_file_step[where P = P, OF s3 P0])
  have d3: "Q fs3" by (rule QS[OF d2 t3])
  obtain e4 fs4 where s4: "appendEntry w fs3 MAIN_FILE ?x = (e4, fs4)" by fastforce
  have t4: "step P ?x fs3 fs4" by (rule appendEntry_step[where P = P, OF s4 QP[OF d3 m(2)]])
  have u2: "step P ?x fs fs2" by (rule step_trans[OF t1 t2])
  have u3: "step P ?x fs fs3" by (rule step_trans[OF u2 t3])
  have u4: "step P ?x fs fs4" by (rule step_trans[OF u3 t4])
  have "fs' = fs \<or> fs' = fs1 \<or> fs' = fs2 \<or> fs' = fs3 \<or> fs' = fs4"
    using run BranchMain s1 s2 s3 s4
    by (auto simp: persist_def persist_branch_main_def split: option.splits if_splits)
  then show ?thesis using t1 u2 u3 u4 by (auto simp: step_refl)
next
  case GlobalBranch
  let ?x = "entry_json e"
  let ?b = "''script/commit-history-'' @ branch e @ ''.json''"
  have m: "DATA_FILE \<in> set (history_files v e)" "?b \<in> set (history_files v e)"
    by (simp_all add: GlobalBranch history_files_def)
  obtain e1 fs1 where s1: "appendEntry w fs DATA_FILE ?x = (e1, fs1)" by fastforce
  have t1: "step P ?x fs fs1" by (rule appendEntry_step[where P = P, OF s1 QP[OF Q m(1)]])
  have d1: "Q fs1" by (rule QS[OF Q t1])
  obtain e2 fs2 where s2: "appendEntry w fs1 ?b ?x = (e2, fs2)" by fastforce
  have t2: "step P ?x fs1 fs2" by (rule appendEntry_step[where P = P, OF s2 QP[OF d1 m(2)]])
  have "fs' = fs1 \<or> fs' = fs2"
    using run GlobalBranch s1 s2
    by (auto simp: persist_def saveCommitData_global_def split: option.splits if_splits)
  then show ?thesis using t1 step_trans[OF t1 t2] by auto
qed

lemma step_dates:
  assumes "all_dates_ok w fs ps" "step P x fs fs'" "date_parses w x"
  shows "all_dates_ok w fs' ps"
  using assms unfolding step_def all_dates_ok_def dates_ok_def list_all_iff by blast

lemma dates_ok_snoc:
  "all_dates_ok w fs ps \<Longrightarrow> p \<in> set ps \<Longrightarrow> date_parses w x \<Longrightarrow>
   dates_ok w (loadHistory fs p @ [x])"
  by (simp add: all_dates_ok_def dates_ok_def list_all_iff)

lemma persist_sorted:
  assumes "persist v w fs e = (err, fs')" "all_dates_ok w fs (history_files v e)"
    "date_parses w (entry_json e)"
  shows "step (date_sorted w) (entry_json e) fs fs'"
proof (rule persist_step[where P = "date_sorted w"
      and Q = "\<lambda>fs0. all_dates_ok w fs0 (history_files v e)", OF assms(1)])
  show "date_sorted w []" by (simp add: date_sorted_def)
  show "all_dates_ok w fs (history_files v e)" by (rule assms(2))
  show "date_sorted w ys"
    if "all_dates_ok w fs0 (history_files v e)" "p \<in> set (history_files v e)"
      "array_sort w (loadHistory fs0 p @ [entry_json e]) = Inr ys"
    for fs0 p ys
    using array_sort_dates[OF dates_ok_snoc[OF that(1,2) assms(3)]] that(3) by auto
  show "all_dates_ok w fs1 (history_files v e)"
    if "all_dates_ok w fs0 (history_files v e)" "step (date_sorted w) (entry_json e) fs0 fs1"
    for fs0 fs1
    by (rule step_dates[OF that assms(3)])
qed

lemma persist_adds:
  assumes "persist v w fs e = (err, fs')"
  shows "step (\<lambda>ys. True) (entry_json e) fs fs'"
  by (rule persist_step[where P = "\<lambda>ys. True" and Q = "\<lambda>fs. True", OF assms]) simp_all

lemma date_key_entry: "date_key w (entry_json e) = date_value w (Some (JStr (commit_date e)))"
  by (simp add: date_key_def entry_json_def get_prop_def)

lemma appendEntry_writes:
  assumes "dates_ok w (loadHistory fs p @ [x])" "writable w p"
  shows "\<exists>ys. appendEntry w fs p x = (None, fs(p \<mapsto> Doc (JArr ys))) \<and> date_sorted w ys
           \<and> mset ys = mset (loadHistory fs p @ [x])"
  using array_sort_dates[OF assms(1)] assms(2)
  by (auto simp: appendEntry_def saveHistory_def writeFileSync_def)

text \<open>
  C5, amended: when the \<open>commit.date\<close> of every record already in the history files and
  of the new record is a valid date, every file that the persistence step of any of
  the three scripts writes holds a JSON array sorted by parsed \<open>commit.date\<close>: each
  record's date is below or equal to the next one's. One append to a writable file
  writes such an array, made of the old records and the new one.
\<close>

theorem append_keeps_sorted:
  assumes "all_dates_ok w fs (history_files v e)" "date_parses w (entry_json e)"
  shows "(persist v w fs e = (err, fs') \<longrightarrow>
            (\<forall>p. fs' p = fs p \<or> (\<exists>ys. fs' p = Some (Doc (JArr ys)) \<and> date_sorted w ys
                   \<and> (\<forall>i. Suc i < length ys \<longrightarrow> date_le w (ys ! i) (ys ! Suc i)))))
       \<and> (p \<in> set (history_files v e) \<and> writable w p \<longrightarrow>
            (\<exists>ys. appendEntry w fs p (entry_json e) = (None, fs(p \<mapsto> Doc (JArr ys)))
                \<and> date_sorted w ys \<and> mset ys = mset (loadHistory fs p @ [entry_json e])))"
proof (intro conjI impI allI)
  fix q
  assume "persist v w fs e = (err, fs')"
  from persist_sorted[OF this assms]
  have "fs' q = fs q \<or> (\<exists>ys. fs' q = Some (Doc (JArr ys)) \<and> date_sorted w ys)"
    by (simp add: step_def)
  moreover have "\<forall>i. Suc i < length ys \<longrightarrow> date_le w (ys ! i) (ys ! Suc i)"
    if "date_sorted w ys" for ys
    using that by (simp add: date_sorted_def sorted_wrt_iff_nth_less)
  ultimately show "fs' q = fs q \<or> (\<exists>ys. fs' q = Some (Doc (JArr ys)) \<and> date_sorted w ys
                   \<and> (\<forall>i. Suc i < length ys \<longrightarrow> date_le w (ys ! i) (ys ! Suc i)))"
    by blast
next
  assume a: "p \<in> set (history_files v e) \<and> writable w p"
  from appendEntry_writes[OF dates_ok_snoc[OF assms(1) _ assms(2)], of p] a
  show "\<exists>ys. appendEntry w fs p (entry_json e) = (None, fs(p \<mapsto> Doc (JArr ys)))
                \<and> date_sorted w ys \<and> mset ys = mset (loadHistory fs p @ [entry_json e])"
    by blast
qed

lemmas date_defs = date_parses_def date_key_def the_date_def date_le_def demo_date_def
  get_prop_def entry_json_def demo_record_def demo_world_def

lemma demo_parses:
  "date_parses (demo_world v s m b) early_json"
  "date_parses (demo_world v s m b) late_json"
  "date_parses (demo_world v s m b) (entry_json (demo_record s0 b0 root_date))"
  by (simp_all add: date_defs demo_world_def early_json_def late_json_def root_date_def)

lemma demo_dates:
  "the_date (demo_world v s m b) early_json = 1714467600000"
  "the_date (demo_world v s m b) late_json = 1714638600000"
  "the_date (demo_world v s m b) (entry_json (demo_record s0 b0 root_date)) = 1714564800000"
  by (simp_all add: date_defs demo_world_def early_json_def late_json_def root_date_def)

lemma old_files_ok: "all_dates_ok (demo_world v s m b) old_files [DATA_FILE]"
  by (simp add: all_dates_ok_def old_files_def loadHistory_def dates_ok_def demo_parses)

lemma demo_cmp:
  "date_cmp (demo_world v s m b) early_json (entry_json (demo_record s0 b0 root_date))
     = Inr (Some (1714467600000 - 1714564800000))"
  "date_cmp (demo_world v s m b) late_json (entry_json (demo_record s0 b0 root_date))
     = Inr (Some (1714638600000 - 1714564800000))"
  "date_cmp (demo_world v s m b) early_json late_json
     = Inr (Some (1714467600000 - 1714638600000))"
  by (simp_all only: date_cmp_parsed[OF demo_parses(1) demo_parses(3)]
        date_cmp_parsed[OF demo_parses(2) demo_parses(3)]
        date_cmp_parsed[OF demo_parses(1) demo_parses(2)] demo_dates)

lemma demo_cmp_back:
  "date_cmp (demo_world v s m b) late_json early_json
     = Inr (Some (1714638600000 - 1714467600000))"
  "date_cmp (demo_world v s m b) (entry_json (demo_record s0 b0 root_date)) late_json
     = Inr (Some (1714564800000 - 1714638600000))"
  "date_cmp (demo_world v s m b) (entry_json (demo_record s0 b0 root_date)) early_json
     = Inr (Some (1714564800000 - 1714467600000))"
  by (simp_all only: date_cmp_parsed[OF demo_parses(2) demo_parses(1)]
        date_cmp_parsed[OF demo_parses(3) demo_parses(2)]
        date_cmp_parsed[OF demo_parses(3) demo_parses(1)] demo_dates)

text \<open>
  The record of 1 May appended to the records of 30 April and 2 May: the head run
  ends before it, and the binary search places it between the two.
\<close>

lemma demo_sorted:
  "array_sort (demo_world v s m b)
     [early_json, late_json, entry_json (demo_record s0 b0 root_date)]
   = Inr [early_json, entry_json (demo_record s0 b0 root_date), late_json]"
  by (simp add: array_sort_def ArrayTimSort_def CountAndMakeRun_def order_of_def demo_cmp_back
      find_slot.simps)

text \<open>
  The same record appended to the record of 2 May and the record without a date: both
  comparisons with the latter give NaN, the whole array counts as one ascending run
  and stays as it is.
\<close>

lemma undated_key: "date_key (demo_world v s m b) undated_json = Inr None"
  by (simp add: date_defs undated_json_def)

lemma demo_keys:
  "date_key (demo_world v s m b) late_json = Inr (Some 1714638600000)"
  "date_key (demo_world v s m b) (entry_json (demo_record s0 b0 root_date))
     = Inr (Some 1714564800000)"
  by (simp_all add: date_defs late_json_def root_date_def)

lemma undated_cmp:
  "date_cmp (demo_world v s m b) undated_json late_json = Inr None"
  "date_cmp (demo_world v s m b) (entry_json (demo_record s0 b0 root_date)) undated_json = Inr None"
  by (simp_all add: date_cmp_def undated_key demo_keys)

lemma mixed_sorted:
  "array_sort (demo_world v s m b)
     [late_json, undated_json, entry_json (demo_record s0 b0 root_date)]
   = Inr [late_json, undated_json, entry_json (demo_record s0 b0 root_date)]"
  by (simp add: array_sort_def ArrayTimSort_def CountAndMakeRun_def order_of_def undated_cmp)

theorem append_keeps_sorted_witness:
  "all_dates_ok (root_world SingleFile ''Add notes'') old_files
       (history_files SingleFile (demo_record root_sha ''feature/x-1'' root_date))
   \<and> date_parses (root_world SingleFile ''Add notes'')
       (entry_json (demo_record root_sha ''feature/x-1'' root_date))
   \<and> writable (root_world SingleFile ''Add notes'') DATA_FILE
   \<and> persist SingleFile (root_world SingleFile ''Add notes'') old_files
       (demo_record root_sha ''feature/x-1'' root_date)
     = (None, old_files(DATA_FILE \<mapsto> Doc (JArr
          [early_json, entry_json (demo_record root_sha ''feature/x-1'' root_date), late_json])))
   \<and> date_sorted (root_world SingleFile ''Add notes'')
        [early_json, entry_json (demo_record root_sha ''feature/x-1'' root_date), late_json]"
proof -
  let ?w = "root_world SingleFile ''Add notes''"
  let ?e = "demo_record root_sha ''feature/x-1'' root_date"
  let ?ys = "[early_json, entry_json ?e, late_json]"
  have a: "all_dates_ok ?w old_files (history_files SingleFile ?e)"
    by (simp add: root_world_def old_files_ok history_files_def)
  have b: "date_parses ?w (entry_json ?e)" by (simp add: root_world_def demo_parses)
  have c: "writable ?w DATA_FILE" by (simp add: root_world_def demo_world_def)
  have h: "head_checks ?e = None"
    by (simp add: head_checks_def demo_record_def endsWith_def root_sha_def)
  have l: "loadHistory old_files DATA_FILE = [early_json, late_json]"
    by (simp add: loadHistory_def old_files_def)
  have p: "persist SingleFile ?w old_files ?e = (None, old_files(DATA_FILE \<mapsto> Doc (JArr ?ys)))"
    using c by (simp add: persist_def saveCommitData_single_def h appendEntry_def l saveHistory_def
        root_world_def demo_sorted writeFileSync_def)
  from append_keeps_sorted[OF a b, of None "old_files(DATA_FILE \<mapsto> Doc (JArr ?ys))" DATA_FILE] p
  have "\<forall>q. (old_files(DATA_FILE \<mapsto> Doc (JArr ?ys))) q = old_files q
          \<or> (\<exists>ys. (old_files(DATA_FILE \<mapsto> Doc (JArr ?ys))) q = Some (Doc (JArr ys))
                \<and> date_sorted ?w ys
                \<and> (\<forall>i. Suc i < length ys \<longrightarrow> date_le ?w (ys ! i) (ys ! Suc i)))"
    by blast
  then have "date_sorted ?w ?ys"
    by (drule_tac x = DATA_FILE in spec) (auto simp: old_files_def)
  with a b c p show ?thesis by blast
qed

text \<open>
  C5 as stated fails: the history file holds the record of 2 May followed by a record
  whose \<open>commit.date\<close> is \<open>yesterday\<close>, which \<open>new Date\<close> cannot parse. The comparator
  returns NaN for every pair with that record, the sort leaves the three records as
  they stand, and \<open>commit-tracker.js\<close> writes the new record of 1 May after the record
  of 2 May.
\<close>

theorem invalid_date_breaks_order:
  "loadHistory mixed_files DATA_FILE = [late_json, undated_json]
   \<and> date_key (root_world SingleFile ''Add notes'') undated_json = Inr None
   \<and> persist SingleFile (root_world SingleFile ''Add notes'') mixed_files
       (demo_record root_sha ''feature/x-1'' root_date)
     = (None, mixed_files(DATA_FILE \<mapsto> Doc (JArr
          [late_json, undated_json, entry_json (demo_record root_sha ''feature/x-1'' root_date)])))
   \<and> the_date (root_world SingleFile ''Add notes'')
         (entry_json (demo_record root_sha ''feature/x-1'' root_date))
       < the_date (root_world SingleFile ''Add notes'') late_json
   \<and> \<not> date_sorted (root_world SingleFile ''Add notes'')
        [late_json, undated_json, entry_json (demo_record root_sha ''feature/x-1'' root_date)]"
proof -
  let ?w = "root_world SingleFile ''Add notes''"
  let ?e = "demo_record root_sha ''feature/x-1'' root_date"
  let ?ys = "[late_json, undated_json, entry_json ?e]"
  have l: "loadHistory mixed_files DATA_FILE = [late_json, undated_json]"
    by (simp add: loadHistory_def mixed_files_def)
  have k: "date_key ?w undated_json = Inr None" by (simp add: root_world_def undated_key)
  have c: "writable ?w DATA_FILE" by (simp add: root_world_def demo_world_def)
  have h: "head_checks ?e = None"
    by (simp add: head_checks_def demo_record_def endsWith_def root_sha_def)
  have p: "persist SingleFile ?w mixed_files ?e = (None, mixed_files(DATA_FILE \<mapsto> Doc (JArr ?ys)))"
    using c by (simp add: persist_def saveCommitData_single_def h appendEntry_def l saveHistory_def
        root_world_def mixed_sorted writeFileSync_def)
  have d: "the_date ?w (entry_json ?e) < the_date ?w late_json"
    by (simp add: root_world_def demo_dates)
  have "\<not> date_parses ?w undated_json" using k by (simp add: date_parses_def)
  then have n: "\<not> date_sorted ?w ?ys" by (simp add: date_sorted_def date_le_def)
  from l k p d n show ?thesis by blast
qed

lemma BRANCH_FILE_name:
  "branch e \<noteq> [] \<Longrightarrow>
   BRANCH_FILE e = ''script/commit-history-''
      @ map (\<lambda>c. if branch_char c then c else CHR ''_'') (branch e) @ ''.json''"
  by (simp add: BRANCH_FILE_def HISTORY_DIR_def sanitizeBranchName_def)

lemma feature_file:
  "branch e = ''feature/x-1'' \<Longrightarrow> BRANCH_FILE e = ''script/commit-history-feature_x-1.json''"
  by (simp add: BRANCH_FILE_def HISTORY_DIR_def sanitizeBranchName_def branch_char_def)

lemma main_file: "branch e = ''main'' \<Longrightarrow> BRANCH_FILE e = MAIN_FILE"
  by (simp add: BRANCH_FILE_def MAIN_FILE_def HISTORY_DIR_def sanitizeBranchName_def branch_char_def)

section \<open>Unreadable histories\<close>

lemma not_an_array_load: "not_an_array (fs p) \<Longrightarrow> loadHistory fs p = []"
  by (auto simp: not_an_array_def loadHistory_def split: option.splits content.splits json.splits)

lemma not_an_array_exists: "not_an_array (fs p) \<Longrightarrow> fs p \<noteq> None"
  by (auto simp: not_an_array_def split: option.splits)

text \<open>
  C8: an existing history file that cannot be parsed, or whose value is not an array,
  loads as the empty history, and the append that follows writes the array of the one
  new record (when the file can be written). \<open>loadHistory\<close> returns a list in every
  case: it has no error to pass on. The persistence steps of \<open>commit-tracker.js\<close> and
  of the per-branch script, which do the same reading, then write that array.
\<close>

theorem unparseable_history_is_empty:
  assumes "not_an_array (fs p)"
  shows "loadHistory fs p = []
       \<and> appendEntry w fs p x =
           (if writable w p then (None, fs(p \<mapsto> Doc (JArr [x]))) else (Some WriteFailed, fs))
       \<and> (p = DATA_FILE \<and> head_checks e = None \<and> writable w p \<longrightarrow>
            persist SingleFile w fs e = (None, fs(p \<mapsto> Doc (JArr [entry_json e]))))
       \<and> (p = BRANCH_FILE e \<and> validateEntry e = None \<and> branch e \<noteq> ''main'' \<and> writable w p \<longrightarrow>
            persist BranchMain w fs e = (None, fs(p \<mapsto> Doc (JArr [entry_json e]))))"
proof -
  note l = not_an_array_load[of fs p, OF assms]
  have a: "appendEntry w fs p y = writeFileSync w fs p (Doc (JArr [y]))" for y
    by (rule appendEntry_empty[of fs p, OF l])
  have ex: "fs p \<noteq> None" by (rule not_an_array_exists[of fs p, OF assms])
  have 1: "appendEntry w fs p x =
           (if writable w p then (None, fs(p \<mapsto> Doc (JArr [x]))) else (Some WriteFailed, fs))"
    by (simp add: a writeFileSync_def)
  have 2: "persist SingleFile w fs e = (None, fs(p \<mapsto> Doc (JArr [entry_json e])))"
    if "p = DATA_FILE \<and> head_checks e = None \<and> writable w p"
    using that a[of "entry_json e"]
    by (auto simp: persist_def saveCommitData_single_def writeFileSync_def)
  have 3: "persist BranchMain w fs e = (None, fs(p \<mapsto> Doc (JArr [entry_json e])))"
    if "p = BRANCH_FILE e \<and> validateEntry e = None \<and> branch e \<noteq> ''main'' \<and> writable w p"
    using that a[of "entry_json e"] ex
    by (auto simp: persist_def persist_branch_main_def ensure_file_def writeFileSync_def)
  from l 1 2 3 show ?thesis by blast
qed

theorem unparseable_history_is_empty_witness:
  "not_an_array ((Map.empty(DATA_FILE \<mapsto> Garbage)) DATA_FILE)
   \<and> not_an_array ((Map.empty(DATA_FILE \<mapsto> Doc (JObj []))) DATA_FILE)
   \<and> loadHistory (Map.empty(DATA_FILE \<mapsto> Doc (JObj []))) DATA_FILE = []
   \<and> persist SingleFile (root_world SingleFile ''Add notes'') (Map.empty(DATA_FILE \<mapsto> Garbage))
        (demo_record root_sha ''feature/x-1'' root_date)
      = (None, Map.empty(DATA_FILE \<mapsto>
           Doc (JArr [entry_json (demo_record root_sha ''feature/x-1'' root_date)])))
   \<and> BRANCH_FILE (demo_record root_sha ''feature/x-1'' root_date)
        = ''script/commit-history-feature_x-1.json''
   \<and> persist BranchMain (root_world BranchMain ''Add notes'')
        (Map.empty(''script/commit-history-feature_x-1.json'' \<mapsto> Doc (JStr ''x'')))
        (demo_record root_sha ''feature/x-1'' root_date)
      = (None, Map.empty(''script/commit-history-feature_x-1.json'' \<mapsto>
           Doc (JArr [entry_json (demo_record root_sha ''feature/x-1'' root_date)])))"
proof -
  let ?w = "root_world SingleFile ''Add notes''"
  let ?w2 = "root_world BranchMain ''Add notes''"
  let ?e = "demo_record root_sha ''feature/x-1'' root_date"
  let ?g = "(Map.empty(DATA_FILE \<mapsto> Garbage)) :: files"
  let ?o = "(Map.empty(DATA_FILE \<mapsto> Doc (JObj []))) :: files"
  let ?b = "(Map.empty(BRANCH_FILE ?e \<mapsto> Doc (JStr ''x''))) :: files"
  have g: "not_an_array (?g DATA_FILE)" by (simp add: not_an_array_def)
  have o: "not_an_array (?o DATA_FILE)" by (simp add: not_an_array_def)
  have s: "not_an_array (?b (BRANCH_FILE ?e))" by (simp add: not_an_array_def)
  have c: "writable ?w DATA_FILE" "writable ?w2 (BRANCH_FILE ?e)"
    by (simp_all add: root_world_def demo_world_def)
  have h: "head_checks ?e = None"
    by (simp add: head_checks_def demo_record_def endsWith_def root_sha_def)
  have v: "validateEntry ?e = None \<and> branch ?e \<noteq> ''main''"
    using h by (simp add: validateEntry_def demo_record_def)
  have n: "BRANCH_FILE ?e = ''script/commit-history-feature_x-1.json''"
    by (rule feature_file) (simp add: demo_record_def)
  from unparseable_history_is_empty[of ?g DATA_FILE ?w _ ?e, OF g] c h
  have 1: "persist SingleFile ?w ?g ?e = (None, ?g(DATA_FILE \<mapsto> Doc (JArr [entry_json ?e])))"
    by blast
  from unparseable_history_is_empty[of ?o DATA_FILE, OF o]
  have 2: "loadHistory ?o DATA_FILE = []" by blast
  from unparseable_history_is_empty[of ?b "BRANCH_FILE ?e" ?w2 _ ?e, OF s] c v
  have 3: "persist BranchMain ?w2 ?b ?e
      = (None, ?b(BRANCH_FILE ?e \<mapsto> Doc (JArr [entry_json ?e])))"
    by blast
  from g o 1 2 3 n show ?thesis by simp
qed

section \<open>The check on the hash\<close>

lemma build_entry_Inr:
  "build_entry v w = Inr e \<Longrightarrow>
   \<exists>s. sh w ''git rev-parse HEAD'' = Some s \<and> valid_sha s \<and> getCommitInfo v w s = Some e"
  by (auto simp: build_entry_def split: option.splits if_splits)

lemma build_entry_built:
  "sh w ''git rev-parse HEAD'' = Some s \<Longrightarrow> valid_sha s \<Longrightarrow> getCommitInfo v w s = Some e
   \<Longrightarrow> build_entry v w = Inr e"
  by (simp add: build_entry_def)

lemma prepare_load:
  assumes "prepare v w fs = (err, fs0)"
  shows "loadHistory fs0 p = loadHistory fs p"
  using assms ensure_file_load[of w fs DATA_FILE err fs0 p]
  by (auto simp: prepare_def split: if_splits)

lemma run_no_entry:
  "build_entry v w = Inl x \<Longrightarrow> run v w fs = (1, snd (prepare v w fs))"
  by (cases "prepare v w fs") (auto simp: run_def split: option.splits)

lemma entry_json_sha: "get_prop (entry_json e) ''sha'' = Some (JStr (sha e))"
  by (simp add: entry_json_def get_prop_def)

lemma run_adds:
  assumes "x \<in> set (loadHistory (snd (run v w fs)) p)" "x \<notin> set (loadHistory fs p)"
  shows "\<exists>e. build_entry v w = Inr e \<and> x = entry_json e"
proof -
  obtain e0 fs0 where p: "prepare v w fs = (e0, fs0)" by fastforce
  note l = prepare_load[OF p]
  show ?thesis
  proof (cases "build_entry v w")
    case (Inl a)
    from run_no_entry[OF this, of fs] assms p l show ?thesis by simp
  next
    case (Inr e)
    obtain e1 fs1 where q: "persist v w fs0 e = (e1, fs1)" by fastforce
    have s: "set (loadHistory fs1 p) \<subseteq> insert (entry_json e) (set (loadHistory fs0 p))"
      using persist_adds[OF q] by (simp add: step_def)
    have "snd (run v w fs) = fs0 \<or> snd (run v w fs) = fs1"
      using p q Inr by (auto simp: run_def split: option.splits)
    then have "x = entry_json e" using assms s l by auto
    with Inr show ?thesis by blast
  qed
qed

text \<open>
  C4, amended: the hash of a built record is the output of \<open>git rev-parse HEAD\<close> and
  matches \<open>^[0-9a-f]{7,40}$\<close> without regard to case (the expression carries the flag \<open>i\<close>),
  so it is never \<open>HEAD\<close>. An output that does not match makes the program exit with
  status 1 before a record is built, the histories left as they were. Every record
  that a run adds to a history is the built record, with such a hash.
\<close>

theorem sha_passes_check:
  "(build_entry v w = Inr e \<longrightarrow>
      valid_sha (sha e) \<and> sha e \<noteq> ''HEAD'' \<and> sh w ''git rev-parse HEAD'' = Some (sha e))
   \<and> (sh w ''git rev-parse HEAD'' = Some s \<and> \<not> valid_sha s \<longrightarrow>
        build_entry v w = Inl InvalidSha \<and> run v w fs = (1, snd (prepare v w fs))
        \<and> (\<forall>p. loadHistory (snd (run v w fs)) p = loadHistory fs p))
   \<and> (x \<in> set (loadHistory (snd (run v w fs)) p) \<and> x \<notin> set (loadHistory fs p) \<longrightarrow>
        (\<exists>e'. build_entry v w = Inr e' \<and> x = entry_json e'
           \<and> get_prop x ''sha'' = Some (JStr (sha e')) \<and> valid_sha (sha e')
           \<and> sha e' \<noteq> ''HEAD''))"
proof (intro conjI impI)
  assume b: "build_entry v w = Inr e"
  from build_entry_Inr[OF b] obtain s0 where
    s: "sh w ''git rev-parse HEAD'' = Some s0" "valid_sha s0" "getCommitInfo v w s0 = Some e"
    by blast
  have e: "sha e = s0" by (rule getCommitInfo_sha[OF s(3)])
  show "valid_sha (sha e)" using s(2) e by simp
  show "sha e \<noteq> ''HEAD''" using valid_sha_not_HEAD[OF s(2)] e by simp
  show "sh w ''git rev-parse HEAD'' = Some (sha e)" using s(1) e by simp
next
  assume a: "sh w ''git rev-parse HEAD'' = Some s \<and> \<not> valid_sha s"
  then show i: "build_entry v w = Inl InvalidSha" by (simp add: build_entry_def)
  show r: "run v w fs = (1, snd (prepare v w fs))" by (rule run_no_entry[OF i])
  show "\<forall>p. loadHistory (snd (run v w fs)) p = loadHistory fs p"
    unfolding r using prepare_load[of v w fs "fst (prepare v w fs)" "snd (prepare v w fs)"]
    by simp
next
  assume a: "x \<in> set (loadHistory (snd (run v w fs)) p) \<and> x \<notin> set (loadHistory fs p)"
  then obtain e' where e': "build_entry v w = Inr e'" "x = entry_json e'"
    using run_adds[of x v w fs p] by blast
  from build_entry_Inr[OF e'(1)] obtain s0 where
    s: "valid_sha s0" "getCommitInfo v w s0 = Some e'" by blast
  have "sha e' = s0" by (rule getCommitInfo_sha[OF s(2)])
  then show "\<exists>e'. build_entry v w = Inr e' \<and> x = entry_json e'
           \<and> get_prop x ''sha'' = Some (JStr (sha e')) \<and> valid_sha (sha e')
           \<and> sha e' \<noteq> ''HEAD''"
    using e' s(1) valid_sha_not_HEAD[OF s(1)] entry_json_sha[of e'] by auto
qed

lemma demo_build:
  "valid_sha s \<Longrightarrow> \<exists>e. build_entry v (demo_world v s m b) = Inr e"
  using demo_info[of v s m b] build_entry_built[OF demo_head] by blast

lemma run_single_fresh:
  assumes "build_entry SingleFile w = Inr e" "writable w DATA_FILE" "loadHistory fs DATA_FILE = []"
  shows "run SingleFile w fs = (0, fs(DATA_FILE \<mapsto> Doc (JArr [entry_json e])))"
proof -
  from build_entry_Inr[OF assms(1)] obtain s where
    s: "valid_sha s" "getCommitInfo SingleFile w s = Some e" by blast
  have h: "head_checks e = None" by (rule built_head_checks[OF s])
  have p: "prepare SingleFile w fs = (None, if fs DATA_FILE = None then fs(DATA_FILE \<mapsto> Doc (JArr [])) else fs)"
    using assms(2) by (simp add: prepare_def ensure_file_def writeFileSync_def)
  show ?thesis
    using assms h
    by (simp add: run_def p persist_def saveCommitData_single_def appendEntry_empty
        loadHistory_upd writeFileSync_def)
qed

lemma upper_sha_valid: "valid_sha upper_sha \<and> \<not> lower_hex_sha upper_sha"
  by (simp add: valid_sha_def upper_sha_def is_hex_ci_def lower_hex_sha_def is_hex_lower_def)

lemma long_sha_invalid: "\<not> valid_sha long_sha"
  by (simp add: valid_sha_def long_sha_def)

lemma demo_writable: "writable (demo_world v s m b) p"
  by (simp add: demo_world_def)

text \<open>
  C4 as stated fails: the upper-case hash \<open>ABCDEF1\<close> passes the check and its record is
  written, though it does not match the expression in lower case.
\<close>

theorem upper_case_sha_persisted:
  "\<exists>e. build_entry SingleFile (demo_world SingleFile upper_sha ''Add notes'' (Some ''main'')) = Inr e
     \<and> sha e = ''ABCDEF1'' \<and> \<not> lower_hex_sha (sha e)
     \<and> run SingleFile (demo_world SingleFile upper_sha ''Add notes'' (Some ''main'')) Map.empty
         = (0, Map.empty(DATA_FILE \<mapsto> Doc (JArr [entry_json e])))"
proof -
  let ?w = "demo_world SingleFile upper_sha ''Add notes'' (Some ''main'')"
  obtain e where e: "build_entry SingleFile ?w = Inr e"
    using demo_build[of upper_sha] upper_sha_valid by blast
  from build_entry_Inr[OF e] have "sha e = upper_sha"
    by (auto simp: demo_head dest: getCommitInfo_sha)
  moreover have "run SingleFile ?w Map.empty = (0, Map.empty(DATA_FILE \<mapsto> Doc (JArr [entry_json e])))"
    by (rule run_single_fresh[OF e demo_writable]) (simp add: loadHistory_def)
  ultimately show ?thesis using e upper_sha_valid by (auto simp: upper_sha_def)
qed

theorem sha_passes_check_witness:
  "(\<exists>e. build_entry SingleFile (root_world SingleFile ''Add notes'') = Inr e
      \<and> valid_sha (sha e) \<and> sha e = root_sha
      \<and> entry_json e \<in> set (loadHistory
            (snd (run SingleFile (root_world SingleFile ''Add notes'') Map.empty)) DATA_FILE)
      \<and> entry_json e \<notin> set (loadHistory Map.empty DATA_FILE))
   \<and> sh (demo_world SingleFile long_sha ''Add notes'' (Some ''main'')) ''git rev-parse HEAD''
        = Some long_sha
   \<and> \<not> valid_sha long_sha
   \<and> run SingleFile (demo_world SingleFile long_sha ''Add notes'' (Some ''main'')) Map.empty
        = (1, Map.empty(DATA_FILE \<mapsto> Doc (JArr [])))"
proof -
  let ?w = "root_world SingleFile ''Add notes''"
  let ?l = "demo_world SingleFile long_sha ''Add notes'' (Some ''main'')"
  obtain e where e: "build_entry SingleFile ?w = Inr e"
    unfolding root_world_def using demo_build[OF root_sha_valid] by blast
  have r: "run SingleFile ?w Map.empty = (0, Map.empty(DATA_FILE \<mapsto> Doc (JArr [entry_json e])))"
    by (rule run_single_fresh[OF e]) (simp_all add: root_world_def demo_writable loadHistory_def)
  have m: "entry_json e \<in> set (loadHistory (snd (run SingleFile ?w Map.empty)) DATA_FILE)
           \<and> entry_json e \<notin> set (loadHistory Map.empty DATA_FILE)"
    by (simp add: r loadHistory_def)
  from sha_passes_check[of SingleFile ?w e _ Map.empty "entry_json e" DATA_FILE] e m
  have v: "valid_sha (sha e)" "sh ?w ''git rev-parse HEAD'' = Some (sha e)" by blast+
  have s: "sha e = root_sha" using v(2) by (simp add: root_world_def demo_head)
  have g: "sh ?l ''git rev-parse HEAD'' = Some long_sha \<and> \<not> valid_sha long_sha"
    by (simp add: demo_head long_sha_invalid)
  from sha_passes_check[of SingleFile ?l _ long_sha Map.empty] g
  have "run SingleFile ?l Map.empty = (1, snd (prepare SingleFile ?l Map.empty))" by blast
  then have x: "run SingleFile ?l Map.empty = (1, Map.empty(DATA_FILE \<mapsto> Doc (JArr [])))"
    by (simp add: prepare_def ensure_file_def writeFileSync_def demo_writable)
  from e v s m g x show ?thesis by blast
qed

section \<open>Forbidden records\<close>

lemma head_checks_forbidden: "(head_checks e \<noteq> None) = forbidden_head e"
  by (auto simp: head_checks_def forbidden_head_def endsWith_def)

lemma validateEntry_forbidden: "(validateEntry e \<noteq> None) = forbidden e"
  using head_checks_forbidden[of e]
  by (auto simp: validateEntry_def forbidden_def split: option.splits)

lemma persist_branch_main_rejects:
  "validateEntry e = Some x \<Longrightarrow> persist BranchMain w fs e = (Some x, fs)"
  by (simp add: persist_def persist_branch_main_def)

lemma persist_single_rejects:
  "head_checks e = Some x \<Longrightarrow> persist SingleFile w fs e = (Some x, fs)"
  by (simp add: persist_def saveCommitData_single_def)

text \<open>
  C2, amended: in the per-branch script a record whose \<open>sha\<close> is \<open>HEAD\<close>, whose URL ends
  in \<open>/commit/HEAD\<close>, whose non-empty URL does not end in its \<open>sha\<close>, or whose branch
  is empty is rejected by \<open>validateEntry\<close>: the program exits with status 1 and no file
  is created or changed. In \<open>commit-tracker.js\<close> the persistence step rejects a record
  for the three conditions on the hash and the URL, and writes nothing.
\<close>

theorem forbidden_record_aborts:
  "(forbidden e \<longrightarrow>
      (\<exists>x. persist BranchMain w fs e = (Some x, fs))
      \<and> (build_entry BranchMain w = Inr e \<longrightarrow> run BranchMain w fs = (1, fs)))
   \<and> (forbidden_head e \<longrightarrow> (\<exists>x. persist SingleFile w fs e = (Some x, fs)))"
proof (intro conjI impI)
  assume "forbidden e"
  then obtain x where x: "validateEntry e = Some x"
    using validateEntry_forbidden[of e] by auto
  show "\<exists>x. persist BranchMain w fs e = (Some x, fs)"
    using persist_branch_main_rejects[OF x] by blast
  show "run BranchMain w fs = (1, fs)" if "build_entry BranchMain w = Inr e"
    using that persist_branch_main_rejects[OF x, of w fs] by (simp add: run_def prepare_def)
next
  assume "forbidden_head e"
  then obtain x where x: "head_checks e = Some x"
    using head_checks_forbidden[of e] by auto
  show "\<exists>x. persist SingleFile w fs e = (Some x, fs)"
    using persist_single_rejects[OF x] by blast
qed

lemma no_branch_build:
  "\<exists>e. build_entry v (no_branch_world v) = Inr e \<and> branch e = []"
proof -
  obtain e where e: "build_entry v (no_branch_world v) = Inr e"
    unfolding no_branch_world_def using demo_build[OF root_sha_valid] by blast
  from build_entry_Inr[OF e] obtain s where "getCommitInfo v (no_branch_world v) s = Some e"
    by blast
  from getCommitInfo_branch[OF this] have "branch e = []"
    by (simp add: no_branch_world_def demo_branch)
  with e show ?thesis by blast
qed

theorem forbidden_record_aborts_witness:
  "(\<exists>e. build_entry BranchMain (no_branch_world BranchMain) = Inr e \<and> forbidden e
       \<and> run BranchMain (no_branch_world BranchMain) old_files = (1, old_files))
   \<and> forbidden_head (demo_record ''HEAD'' ''main'' root_date)
   \<and> persist SingleFile (no_branch_world SingleFile) old_files
        (demo_record ''HEAD'' ''main'' root_date) = (Some ShaIsHead, old_files)"
proof -
  let ?w = "no_branch_world BranchMain"
  let ?h = "demo_record ''HEAD'' ''main'' root_date"
  obtain e where e: "build_entry BranchMain ?w = Inr e" "branch e = []"
    using no_branch_build by blast
  have f: "forbidden e" using e(2) by (simp add: forbidden_def)
  from forbidden_record_aborts[of e ?w old_files] f e(1)
  have r: "run BranchMain ?w old_files = (1, old_files)" by blast
  have g: "forbidden_head ?h" by (simp add: forbidden_head_def demo_record_def)
  from forbidden_record_aborts[of ?h "no_branch_world SingleFile" old_files] g
  obtain x where x: "persist SingleFile (no_branch_world SingleFile) old_files ?h = (Some x, old_files)"
    by blast
  then have "x = ShaIsHead"
    by (simp add: persist_def saveCommitData_single_def head_checks_def demo_record_def)
  with e f r g x show ?thesis by blast
qed

lemma run_global_no_branch:
  assumes "build_entry GlobalBranch w = Inr e" "branch e = [] \<or> branch e = ''HEAD''"
    "writable w DATA_FILE" "loadHistory fs DATA_FILE = []"
  shows "run GlobalBranch w fs = (0, fs(DATA_FILE \<mapsto> Doc (JArr [entry_json e])))"
proof -
  have p: "prepare GlobalBranch w fs
      = (None, if fs DATA_FILE = None then fs(DATA_FILE \<mapsto> Doc (JArr [])) else fs)"
    using assms(3) by (simp add: prepare_def ensure_file_def writeFileSync_def)
  show ?thesis
    using assms
    by (auto simp: run_def p persist_def saveCommitData_global_def appendEntry_empty
        loadHistory_upd writeFileSync_def)
qed

text \<open>
  C2 as stated fails: when the branch cannot be resolved the record's branch is empty,
  and the third script, which checks nothing, exits with status 0 having written the
  record to the global file; so does \<open>commit-tracker.js\<close>, which does not check the
  branch.
\<close>

theorem empty_branch_persisted:
  "(\<exists>e. build_entry GlobalBranch (no_branch_world GlobalBranch) = Inr e \<and> branch e = []
       \<and> run GlobalBranch (no_branch_world GlobalBranch) Map.empty
           = (0, Map.empty(DATA_FILE \<mapsto> Doc (JArr [entry_json e]))))
   \<and> (\<exists>e. build_entry SingleFile (no_branch_world SingleFile) = Inr e \<and> branch e = []
       \<and> run SingleFile (no_branch_world SingleFile) Map.empty
           = (0, Map.empty(DATA_FILE \<mapsto> Doc (JArr [entry_json e]))))"
proof -
  obtain e where e: "build_entry GlobalBranch (no_branch_world GlobalBranch) = Inr e" "branch e = []"
    using no_branch_build by blast
  have 1: "run GlobalBranch (no_branch_world GlobalBranch) Map.empty
           = (0, Map.empty(DATA_FILE \<mapsto> Doc (JArr [entry_json e])))"
    by (rule run_global_no_branch[OF e(1)])
       (simp_all add: e(2) no_branch_world_def demo_writable loadHistory_def)
  obtain e' where e': "build_entry SingleFile (no_branch_world SingleFile) = Inr e'" "branch e' = []"
    using no_branch_build by blast
  have 2: "run SingleFile (no_branch_world SingleFile) Map.empty
           = (0, Map.empty(DATA_FILE \<mapsto> Doc (JArr [entry_json e'])))"
    by (rule run_single_fresh[OF e'(1)])
       (simp_all add: no_branch_world_def demo_writable loadHistory_def)
  from e 1 e' 2 show ?thesis by blast
qed

section \<open>The file of the branch\<close>

lemma appendEntry_readable:
  assumes "\<forall>y\<in>set (loadHistory fs p @ [x]). readable w y" "writable w p"
  shows "\<exists>ys. appendEntry w fs p x = (None, fs(p \<mapsto> Doc (JArr ys)))
           \<and> mset ys = mset (loadHistory fs p @ [x])"
  using array_sort_readable[OF assms(1)] assms(2)
  by (auto simp: appendEntry_def saveHistory_def writeFileSync_def)

text \<open>
  C3, amended: in the per-branch script a validated record is appended to the file
  \<open>script/commit-history-<sanitized-branch>.json\<close>, where every character of the
  branch outside \<open>[A-Za-z0-9._-]\<close> is replaced by \<open>_\<close>; the file is created as an
  empty array when absent; the branch \<open>feature/x-1\<close> gives
  \<open>commit-history-feature_x-1.json\<close>. This holds when the file can be written and
  the comparator can read the date of every record of the history.
\<close>

theorem branch_file_append:
  assumes "validateEntry e = None" "writable w (BRANCH_FILE e)"
    "\<forall>y\<in>set (loadHistory fs (BRANCH_FILE e) @ [entry_json e]). readable w y"
  shows "BRANCH_FILE e = ''script/commit-history-''
            @ map (\<lambda>c. if branch_char c then c else CHR ''_'') (branch e) @ ''.json''
       \<and> (branch e = ''feature/x-1'' \<longrightarrow>
            BRANCH_FILE e = ''script/commit-history-feature_x-1.json'')
       \<and> (fs (BRANCH_FILE e) = None \<longrightarrow>
            ensure_file w fs (BRANCH_FILE e) = (None, fs(BRANCH_FILE e \<mapsto> Doc (JArr []))))
       \<and> (\<exists>fs' ys. persist BranchMain w fs e = (None, fs')
            \<and> fs' (BRANCH_FILE e) = Some (Doc (JArr ys))
            \<and> add_mset (entry_json e) (mset (loadHistory fs (BRANCH_FILE e))) \<subseteq># mset ys
            \<and> set ys = insert (entry_json e) (set (loadHistory fs (BRANCH_FILE e))))"
proof -
  let ?B = "BRANCH_FILE e" and ?x = "entry_json e"
  have nb: "branch e \<noteq> []" using assms(1) by (auto simp: validateEntry_def split: option.splits if_splits)
  have 1: "?B = ''script/commit-history-''
            @ map (\<lambda>c. if branch_char c then c else CHR ''_'') (branch e) @ ''.json''"
    by (rule BRANCH_FILE_name[OF nb])
  have 2: "branch e = ''feature/x-1'' \<longrightarrow> ?B = ''script/commit-history-feature_x-1.json''"
    using feature_file by blast
  have 3: "fs ?B = None \<longrightarrow> ensure_file w fs ?B = (None, fs(?B \<mapsto> Doc (JArr [])))"
    using assms(2) by (simp add: ensure_file_def writeFileSync_def)
  have "\<exists>fs1. ensure_file w fs ?B = (None, fs1)"
    using assms(2) by (simp add: ensure_file_def writeFileSync_def)
  then obtain fs1 where s1: "ensure_file w fs ?B = (None, fs1)" by blast
  have l1: "loadHistory fs1 ?B = loadHistory fs ?B" by (rule ensure_file_load[OF s1])
  from appendEntry_readable[of fs1 ?B ?x w] assms(2,3) l1 obtain ys1 where
    a1: "appendEntry w fs1 ?B ?x = (None, fs1(?B \<mapsto> Doc (JArr ys1)))"
    and m1: "mset ys1 = mset (loadHistory fs ?B @ [?x])"
    by auto
  let ?fs2 = "fs1(?B \<mapsto> Doc (JArr ys1))"
  have set1: "set ys1 = insert ?x (set (loadHistory fs ?B))"
    using arg_cong[OF m1, of set_mset] by simp
  show ?thesis
  proof (cases "branch e = ''main''")
    case False
    have "persist BranchMain w fs e = (None, ?fs2)"
      using assms(1) s1 a1 False by (simp add: persist_def persist_branch_main_def)
    moreover have "?fs2 ?B = Some (Doc (JArr ys1))" by simp
    moreover have "add_mset ?x (mset (loadHistory fs ?B)) \<subseteq># mset ys1" using m1 by simp
    ultimately show ?thesis using 1 2 3 set1 by blast
  next
    case True
    have mf: "MAIN_FILE = ?B" using main_file[OF True] by simp
    have s3: "ensure_file w ?fs2 MAIN_FILE = (None, ?fs2)" by (simp add: ensure_file_def mf)
    have l2: "loadHistory ?fs2 ?B = ys1" by (simp add: loadHistory_upd)
    have r2: "\<forall>y\<in>set (loadHistory ?fs2 ?B @ [?x]). readable w y"
      using assms(3) set1 by (simp add: l2)
    from appendEntry_readable[OF r2 assms(2)] obtain ys2 where
      a2: "appendEntry w ?fs2 ?B ?x = (None, ?fs2(?B \<mapsto> Doc (JArr ys2)))"
      and m2: "mset ys2 = mset (ys1 @ [?x])"
      by (auto simp: l2)
    have "persist BranchMain w fs e = (None, ?fs2(?B \<mapsto> Doc (JArr ys2)))"
      using assms(1) s1 a1 True s3 a2 by (simp add: persist_def persist_branch_main_def mf)
    moreover have "(?fs2(?B \<mapsto> Doc (JArr ys2))) ?B = Some (Doc (JArr ys2))" by simp
    moreover have "add_mset ?x (mset (loadHistory fs ?B)) \<subseteq># mset ys2" using m1 m2 by simp
    moreover have "set ys2 = insert ?x (set (loadHistory fs ?B))"
      using arg_cong[OF m2, of set_mset] set1 by simp
    ultimately show ?thesis using 1 2 3 by blast
  qed
qed


lemma demo_readable: "readable (demo_world v s m b) (entry_json e)"
  by (simp add: readable_def date_key_entry demo_world_def demo_date_def)

lemma demo_build_branch:
  assumes "valid_sha s"
  shows "\<exists>e. build_entry v (demo_world v s m (Some b)) = Inr e \<and> branch e = b
           \<and> head_checks e = None"
proof -
  let ?w = "demo_world v s m (Some b)"
  obtain e where e: "build_entry v ?w = Inr e"
    using demo_build[OF assms] by blast
  from build_entry_Inr[OF e] obtain s' where
    s: "valid_sha s'" "getCommitInfo v ?w s' = Some e" by blast
  have b: "branch e = b"
    using getCommitInfo_branch[OF s(2)] by (simp add: demo_branch)
  have h: "head_checks e = None" by (rule built_head_checks[OF s])
  with e b show ?thesis by blast
qed

lemma root_build:
  "\<exists>e. build_entry v (root_world v m) = Inr e \<and> branch e = ''feature/x-1''
       \<and> head_checks e = None \<and> validateEntry e = None"
proof -
  obtain e where e: "build_entry v (root_world v m) = Inr e" "branch e = ''feature/x-1''"
    "head_checks e = None"
    unfolding root_world_def using demo_build_branch[OF root_sha_valid] by blast
  have "validateEntry e = None" using e(2,3) by (simp add: validateEntry_def)
  with e show ?thesis by blast
qed

theorem branch_file_append_witness:
  "\<exists>e. build_entry BranchMain (root_world BranchMain ''Add notes'') = Inr e
     \<and> validateEntry e = None
     \<and> writable (root_world BranchMain ''Add notes'') (BRANCH_FILE e)
     \<and> readable (root_world BranchMain ''Add notes'') (entry_json e)
     \<and> BRANCH_FILE e = ''script/commit-history-feature_x-1.json''
     \<and> persist BranchMain (root_world BranchMain ''Add notes'') Map.empty e
         = (None, Map.empty(''script/commit-history-feature_x-1.json'' \<mapsto>
              Doc (JArr [entry_json e])))"
proof -
  let ?w = "root_world BranchMain ''Add notes''"
  obtain e where e: "build_entry BranchMain ?w = Inr e" "branch e = ''feature/x-1''"
    "validateEntry e = None"
    using root_build by blast
  have w: "writable ?w (BRANCH_FILE e)" by (simp add: root_world_def demo_writable)
  have x: "readable ?w (entry_json e)" by (simp add: root_world_def demo_readable)
  have r: "\<forall>y\<in>set (loadHistory Map.empty (BRANCH_FILE e) @ [entry_json e]). readable ?w y"
    using x by (simp add: loadHistory_def)
  from branch_file_append[OF e(3) w r]
  have "branch e = ''feature/x-1'' \<longrightarrow> BRANCH_FILE e = ''script/commit-history-feature_x-1.json''"
    and "Map.empty (BRANCH_FILE e) = None \<longrightarrow> ensure_file ?w Map.empty (BRANCH_FILE e)
              = (None, Map.empty(BRANCH_FILE e \<mapsto> Doc (JArr [])))"
    by blast+
  then have n: "BRANCH_FILE e = ''script/commit-history-feature_x-1.json''"
    and c: "ensure_file ?w Map.empty (BRANCH_FILE e)
              = (None, Map.empty(BRANCH_FILE e \<mapsto> Doc (JArr [])))"
    using e(2) by simp_all
  have "persist BranchMain ?w Map.empty e
          = (None, Map.empty(BRANCH_FILE e \<mapsto> Doc (JArr [entry_json e])))"
    using e(2,3) w
    by (simp add: persist_def persist_branch_main_def c appendEntry_empty loadHistory_upd
        writeFileSync_def)
  with e w x n show ?thesis by (auto simp only:)
qed

lemma run_global_branch:
  assumes "build_entry GlobalBranch w = Inr e" "branch e \<noteq> []" "branch e \<noteq> ''HEAD''"
    "writable w DATA_FILE" "writable w (''script/commit-history-'' @ branch e @ ''.json'')"
    "fs DATA_FILE = None" "fs (''script/commit-history-'' @ branch e @ ''.json'') = None"
  shows "run GlobalBranch w fs
     = (0, fs(DATA_FILE \<mapsto> Doc (JArr [entry_json e]),
              ''script/commit-history-'' @ branch e @ ''.json'' \<mapsto> Doc (JArr [entry_json e])))"
proof -
  let ?b = "''script/commit-history-'' @ branch e @ ''.json''"
  have ne: "?b \<noteq> DATA_FILE" by (simp add: DATA_FILE_def)
  have p: "prepare GlobalBranch w fs = (None, fs(DATA_FILE \<mapsto> Doc (JArr [])))"
    using assms(4,6) by (simp add: prepare_def ensure_file_def writeFileSync_def)
  have a: "appendEntry w (fs(DATA_FILE \<mapsto> Doc (JArr []))) DATA_FILE (entry_json e)
      = (None, fs(DATA_FILE \<mapsto> Doc (JArr [entry_json e])))"
    using assms(4) by (simp add: appendEntry_empty loadHistory_upd writeFileSync_def)
  have b: "appendEntry w (fs(DATA_FILE \<mapsto> Doc (JArr [entry_json e]))) ?b (entry_json e)
      = (None, fs(DATA_FILE \<mapsto> Doc (JArr [entry_json e]), ?b \<mapsto> Doc (JArr [entry_json e])))"
    using assms(5,7) ne
    by (simp add: appendEntry_empty loadHistory_upd loadHistory_absent writeFileSync_def)
  have "saveCommitData_global w (fs(DATA_FILE \<mapsto> Doc (JArr []))) e
      = (None, fs(DATA_FILE \<mapsto> Doc (JArr [entry_json e]), ?b \<mapsto> Doc (JArr [entry_json e])))"
    using assms(2,3) a b by (simp add: saveCommitData_global_def)
  then show ?thesis
    using assms(1) by (simp add: run_def p persist_def)
qed

text \<open>
  C3 as stated fails: on the branch \<open>feature/x-1\<close>, \<open>commit-tracker.js\<close> validates
  the record, exits with status 0 and writes only \<open>script/commit-history.json\<close>. On
  the branch \<open>fix#12\<close> the third script writes the file named by the raw branch,
  \<open>script/commit-history-fix#12.json\<close>, and not \<open>script/commit-history-fix_12.json\<close>.
\<close>

theorem no_sanitized_branch_file:
  "(\<exists>e. build_entry SingleFile (root_world SingleFile ''Add notes'') = Inr e
       \<and> branch e = ''feature/x-1'' \<and> head_checks e = None
       \<and> fst (run SingleFile (root_world SingleFile ''Add notes'') Map.empty) = 0
       \<and> snd (run SingleFile (root_world SingleFile ''Add notes'') Map.empty)
            ''script/commit-history-feature_x-1.json'' = None)
   \<and> (\<exists>e. build_entry GlobalBranch (hash_branch_world GlobalBranch) = Inr e
       \<and> branch e = ''fix#12''
       \<and> sanitizeBranchName (branch e) = ''fix_12''
       \<and> fst (run GlobalBranch (hash_branch_world GlobalBranch) Map.empty) = 0
       \<and> snd (run GlobalBranch (hash_branch_world GlobalBranch) Map.empty)
            ''script/commit-history-fix_12.json'' = None
       \<and> snd (run GlobalBranch (hash_branch_world GlobalBranch) Map.empty)
            ''script/commit-history-fix#12.json'' = Some (Doc (JArr [entry_json e])))"
proof -
  let ?w1 = "root_world SingleFile ''Add notes''"
  let ?w3 = "hash_branch_world GlobalBranch"
  obtain e where e: "build_entry SingleFile ?w1 = Inr e" "branch e = ''feature/x-1''"
    "head_checks e = None"
    using root_build by blast
  have 1: "run SingleFile ?w1 Map.empty = (0, Map.empty(DATA_FILE \<mapsto> Doc (JArr [entry_json e])))"
    by (rule run_single_fresh[OF e(1)]) (simp_all add: root_world_def demo_writable loadHistory_def)
  obtain e3 where e3: "build_entry GlobalBranch ?w3 = Inr e3" "branch e3 = ''fix#12''"
    unfolding hash_branch_world_def using demo_build_branch[OF root_sha_valid] by blast
  have 3: "run GlobalBranch ?w3 Map.empty
     = (0, Map.empty(DATA_FILE \<mapsto> Doc (JArr [entry_json e3]),
              ''script/commit-history-'' @ branch e3 @ ''.json'' \<mapsto> Doc (JArr [entry_json e3])))"
    by (rule run_global_branch[OF e3(1)])
       (simp_all add: e3(2) hash_branch_world_def demo_writable)
  have 4: "sanitizeBranchName (branch e3) = ''fix_12''"
    by (simp add: e3(2) sanitizeBranchName_def branch_char_def)
  show ?thesis
    using e 1 e3 3 4 by (auto simp: DATA_FILE_def)
qed

section \<open>The statistics of a root commit\<close>

lemmas scan_defs = match_here_def startsWith_def is_digit_def is_space_def
  show_text_def root_sha_def Let_def

lemma show_insertions: "match_count ''insertion'' (show_text root_sha ''Add notes'') = Some ''10''"
  by (simp add: scan_defs)

lemma show_deletions: "match_count ''deletion'' (show_text root_sha ''Add notes'') = None"
  by (simp add: scan_defs)

lemma show_insertions2:
  "match_count ''insertion'' (show_text root_sha ''Drop 2 deletion markers'') = Some ''10''"
  by (simp add: scan_defs)

lemma show_deletions2:
  "match_count ''deletion'' (show_text root_sha ''Drop 2 deletion markers'') = Some ''2''"
  by (simp add: scan_defs)

lemma show_insertions3:
  "match_count ''insertion'' (show_text root_sha ''Fix 3 insertion points'') = Some ''3''"
  by (simp add: scan_defs)

lemma parsed_counts: "parseInt10 ''10'' = 10" "parseInt10 ''2'' = 2" "parseInt10 ''3'' = 3"
  by (simp_all add: parseInt10_def decimal_def digit_val_def double_of_small)

lemma demo_diff_fails:
  "sh (demo_world v s m b) (diff_command v (demo_world v s m b) s) = None"
  by (simp add: demo_world_def demo_sh_def diff_command_def show_command_def)

lemma demo_show: "sh (demo_world v s m b) (show_command v s) = Some (show_text s m)"
  by (simp add: demo_world_def demo_sh_def show_command_def)

lemma demo_parents: "sh (demo_world v s m b) (''git log -1 --pretty=%P '' @ s) = Some []"
  by (simp add: demo_world_def demo_sh_def)

lemma getCommitInfo_stats:
  "getCommitInfo v w s = Some r \<Longrightarrow>
   diff_stats v w s = (stats_additions r, stats_deletions r)
   \<and> stats_total r = double_of (stats_additions r + stats_deletions r)"
  by (auto simp: getCommitInfo_def Let_def split: option.splits prod.splits)

text \<open>
  The scenario of the specification: a root commit that adds one file of ten lines,
  with the message \<open>Add notes\<close>. \<open>git diff\<close> fails, and every script records 10
  additions, 0 deletions and a total of 10.
\<close>

lemma root_stats:
  "\<exists>r. getCommitInfo v (root_world v ''Add notes'') root_sha = Some r
       \<and> stats_additions r = 10 \<and> stats_deletions r = 0 \<and> stats_total r = 10"
proof -
  let ?w = "root_world v ''Add notes''"
  obtain r where r: "getCommitInfo v ?w root_sha = Some r"
    unfolding root_world_def using demo_info by blast
  have d: "sh ?w (diff_command v ?w root_sha) = None" by (simp add: root_world_def demo_diff_fails)
  have s: "sh ?w (show_command v root_sha) = Some (show_text root_sha ''Add notes'')"
    by (simp add: root_world_def demo_show)
  have "diff_stats v ?w root_sha = (10, 0)"
    using d s
    by (simp add: diff_stats_def show_insertions show_deletions count_or_zero_def parsed_counts)
  with getCommitInfo_stats[OF r] r show ?thesis by (auto simp: double_of_small)
qed

text \<open>
  C6: the fallback reads the two counts from the whole output of \<open>git show --stat\<close>,
  which prints the commit message before the summary line. For a root commit that
  adds one file of ten lines with the message \<open>Drop 2 deletion markers\<close>, the
  per-branch script, which is in the fallback because \<open>git diff\<close> fails, records 2
  deletions and a total of 12 where the specification asks for 0 and 10. With the
  message \<open>Fix 3 insertion points\<close>, \<open>commit-tracker.js\<close> records 3 additions and a
  total of 3 for the same ten lines.
\<close>

theorem fallback_reads_deletions:
  "(\<exists>r. getCommitInfo BranchMain (root_world BranchMain ''Drop 2 deletion markers'') root_sha
          = Some r
     \<and> sh (root_world BranchMain ''Drop 2 deletion markers'')
          (''git log -1 --pretty=%P '' @ root_sha) = Some []
     \<and> sh (root_world BranchMain ''Drop 2 deletion markers'')
          (diff_command BranchMain (root_world BranchMain ''Drop 2 deletion markers'') root_sha)
          = None
     \<and> stats_additions r = 10 \<and> stats_deletions r = 2 \<and> stats_total r = 12)
   \<and> (\<exists>r. getCommitInfo SingleFile (root_world SingleFile ''Fix 3 insertion points'') root_sha
          = Some r
     \<and> sh (root_world SingleFile ''Fix 3 insertion points'')
          (diff_command SingleFile (root_world SingleFile ''Fix 3 insertion points'') root_sha)
          = None
     \<and> stats_additions r = 3 \<and> stats_deletions r = 0 \<and> stats_total r = 3)"
proof -
  let ?w = "root_world BranchMain ''Drop 2 deletion markers''"
  obtain r where r: "getCommitInfo BranchMain ?w root_sha = Some r"
    unfolding root_world_def using demo_info by blast
  have p: "sh ?w (''git log -1 --pretty=%P '' @ root_sha) = Some []"
    unfolding root_world_def by (rule demo_parents)
  have d: "sh ?w (diff_command BranchMain ?w root_sha) = None"
    by (simp add: root_world_def demo_diff_fails)
  have s: "sh ?w (show_command BranchMain root_sha)
      = Some (show_text root_sha ''Drop 2 deletion markers'')"
    by (simp add: root_world_def demo_show)
  have "diff_stats BranchMain ?w root_sha = (10, 2)"
    using d s
    by (simp add: diff_stats_def show_insertions2 show_deletions2 count_or_zero_def parsed_counts)
  with getCommitInfo_stats[OF r]
  have t: "stats_additions r = 10 \<and> stats_deletions r = 2 \<and> stats_total r = 12"
    by (auto simp: double_of_small)
  let ?w1 = "root_world SingleFile ''Fix 3 insertion points''"
  obtain r1 where r1: "getCommitInfo SingleFile ?w1 root_sha = Some r1"
    unfolding root_world_def using demo_info by blast
  have d1: "sh ?w1 (diff_command SingleFile ?w1 root_sha) = None"
    by (simp add: root_world_def demo_diff_fails)
  have s1: "sh ?w1 (show_command SingleFile root_sha)
      = Some (show_text root_sha ''Fix 3 insertion points'')"
    by (simp add: root_world_def demo_show)
  have "diff_stats SingleFile ?w1 root_sha = (3, 0)"
    using d1 s1 by (simp add: diff_stats_def show_insertions3 count_or_zero_def parsed_counts)
  with getCommitInfo_stats[OF r1]
  have t1: "stats_additions r1 = 3 \<and> stats_deletions r1 = 0 \<and> stats_total r1 = 3"
    by (auto simp: double_of_small)
  from r p d t r1 d1 t1 show ?thesis by blast
qed

section \<open>The conclusion of the record\<close>

text \<open>
  When the report is processed without an exception and its two counts are numbers,
  the conclusion follows the counts.
\<close>

lemma conclusion_follows_counts:
  assumes "jestResults \<noteq> JNull" "coverage_of v w jestResults = Inr c"
    "or_zero (get_prop jestResults ''numTotalTests'') = JNum n"
    "or_zero (get_prop jestResults ''numFailedTests'') = JNum m"
  shows "process_report v w jestResults =
     (JNum n, c, JNum m,
      if 0 < n then (if 0 < m then ''failure'' else ''success'') else ''neutral'')"
  using assms by (simp add: process_report_def conclusion_of_def gt_zero_def)

text \<open>
  C1: the report \<open>broken_report\<close> counts ten tests, two of them failed, and its coverage
  map has an entry without \<open>s\<close>. \<open>Object.keys(undefined)\<close> throws after the two counts
  are assigned and before the conclusion is: the record of every script holds
  \<open>test_count = 10\<close>, \<open>failed_tests = 2\<close> and the conclusion \<open>neutral\<close>, and
  \<open>commit-tracker.js\<close> writes it to its history file and exits with status 0.
\<close>

theorem exception_keeps_neutral:
  "(\<exists>r. getCommitInfo v (broken_world v) root_sha = Some r
       \<and> test_count r = JNum 10 \<and> failed_tests r = JNum 2 \<and> conclusion r = ''neutral'')
   \<and> (\<exists>r. build_entry SingleFile (broken_world SingleFile) = Inr r
       \<and> test_count r = JNum 10 \<and> failed_tests r = JNum 2 \<and> conclusion r = ''neutral''
       \<and> run SingleFile (broken_world SingleFile) Map.empty
            = (0, Map.empty(DATA_FILE \<mapsto> Doc (JArr [entry_json r]))))"
proof -
  have f: "test_count r = JNum 10 \<and> failed_tests r = JNum 2 \<and> conclusion r = ''neutral''"
    if "getCommitInfo v' (broken_world v') s = Some r" for v' s r
    using getCommitInfo_tests[OF that] by (simp add: broken_tests)
  have sh_eq: "sh (broken_world v') = sh (demo_world v' root_sha ''Add notes'' (Some ''feature/x-1''))"
    for v'
    by (simp add: broken_world_def root_world_def)
  have ex: "\<exists>r. getCommitInfo v' (broken_world v') root_sha = Some r" for v'
    by (rule getCommitInfo_Some) (simp_all add: sh_eq demo_world_def demo_sh_def)
  then have 1: "\<exists>r. getCommitInfo v (broken_world v) root_sha = Some r
       \<and> test_count r = JNum 10 \<and> failed_tests r = JNum 2 \<and> conclusion r = ''neutral''"
    using f by blast
  let ?w = "broken_world SingleFile"
  have h: "sh ?w ''git rev-parse HEAD'' = Some root_sha" by (simp add: sh_eq demo_head)
  obtain r where r: "getCommitInfo SingleFile ?w root_sha = Some r"
    using ex by blast
  have b: "build_entry SingleFile ?w = Inr r"
    by (rule build_entry_built[OF h root_sha_valid r])
  have w: "writable ?w DATA_FILE" by (simp add: broken_world_def root_world_def demo_writable)
  have "run SingleFile ?w Map.empty = (0, Map.empty(DATA_FILE \<mapsto> Doc (JArr [entry_json r])))"
    by (rule run_single_fresh[OF b w]) (simp add: loadHistory_def)
  with b f[OF r] 1 show ?thesis by blast
qed

end
